theory Spec2Isabelle
  imports Main "HOL-Library.AList" "HOL-Library.Sublist"
begin

section \<open>The packaging and publishing pipeline of \<open>ciel.build.push\<close>\<close>

text \<open>
  The development embeds the function \<open>push\<close> of \<open>src/ciel/build/__init__.py\<close>:
  the checks at its start, the loop that partitions the files of a version directory
  into collections, the loop that writes one archive per collection, and the loop that
  hands every archive to the external uploader \<open>ghr\<close>.

  A path is the list of its components: \<open>os.path.join\<close> appends components and
  \<open>str.split(os.sep)\<close> reads them back, so both are the identity on this
  representation. Paths are absolute and normalised, as \<open>os.path.abspath\<close> makes them.
\<close>

subsection \<open>Data\<close>

type_synonym path = "string list"

type_synonym bytes = string

text \<open>What a path of the local file system holds. \<open>Other\<close> stands for every entry that
  is neither a regular file nor a directory; for it, as for a directory, \<open>Path.is_file\<close>
  is false. Symbolic links are not modelled.\<close>

datatype node = RegFile bytes | Directory | Other

type_synonym filesystem = "(path \<times> node) list"

datatype error =
    KeyError string
  | TypeError string
  | FileNotFoundError string
  | IndexError
  | CalledProcessError int "string list"
  | OSError string

text \<open>The dictionary \<open>collections\<close>: Python dictionaries keep insertion order, and
  assigning to an existing key keeps its position, which is what \<open>AList.update\<close> does.\<close>

type_synonym collections = "(string \<times> path list) list"

text \<open>A member of a tar archive: its internal name and what was stored under it.\<close>

type_synonym member = "path \<times> node"

record family =
  all_libraries :: "string list"
  repo :: string

datatype proc_result = Exited int | NotLaunched string

text \<open>
  Everything \<open>push\<close> reads from outside the file: the family registry
  (\<open>Family.by_name\<close>), the token of the \<open>GitHubSession\<close>, the directory that
  \<open>Version.get_dir\<close> computes, the local file system, the temporary directory, the
  random identifier, the commit date lookup and the \<open>ghr\<close> program, whose exit status may
  depend on the calls made before.
\<close>

record env =
  by_name :: "string \<Rightarrow> family option"
  github_token :: "string option"
  get_dir :: "string \<Rightarrow> string \<Rightarrow> string \<Rightarrow> path"
  fs :: filesystem
  gettempdir :: path
  uuid4 :: string
  get_commit_date :: "string \<Rightarrow> string \<Rightarrow> string option"
  date_to_iso8601 :: "string \<Rightarrow> string"
  ghr :: "(string list \<times> int) list \<Rightarrow> string list \<Rightarrow> proc_result"

record args =
  pdk_root :: string
  pdk_family :: string
  version :: string
  owner :: string
  repository :: string
  pre :: bool
  push_libraries :: "string list option"

text \<open>The effects of one call: the directories made, the archive files written (path and
  members) and the calls of \<open>ghr\<close> that ran, each with its exit status.\<close>

record state =
  dirs_made :: "path list"
  archives :: "(path \<times> member list) list"
  ghr_calls :: "(string list \<times> int) list"

definition initial :: state where
  "initial = \<lparr>dirs_made = [], archives = [], ghr_calls = []\<rparr>"

subsection \<open>Library functions the code calls\<close>

text \<open>\<open>xs[i]\<close> for a non-negative index: out of range raises \<open>IndexError\<close>.\<close>

definition getitem :: "'a list \<Rightarrow> nat \<Rightarrow> error + 'a" where
  "getitem xs i = (if i < length xs then Inr (xs ! i) else Inl IndexError)"

fun commonprefix :: "'a list \<Rightarrow> 'a list \<Rightarrow> 'a list" where
  "commonprefix (x # xs) (y # ys) = (if x = y then x # commonprefix xs ys else [])"
| "commonprefix _ _ = []"

text \<open>\<open>os.path.relpath(path, start)\<close>: one \<open>..\<close> for every component of \<open>start\<close> beyond
  the common prefix, then the rest of \<open>path\<close>; \<open>.\<close> when nothing is left.\<close>

definition relpath :: "path \<Rightarrow> path \<Rightarrow> path" where
  "relpath p start =
     (let i = length (commonprefix start p);
          rel_list = replicate (length start - i) ''..'' @ drop i p
      in if rel_list = [] then [''.''] else rel_list)"

fun is_file :: "node \<Rightarrow> bool" where
  "is_file (RegFile c) = True"
| "is_file n = False"

definition isdir :: "filesystem \<Rightarrow> path \<Rightarrow> bool" where
  "isdir f p = (map_of f p = Some Directory)"

text \<open>\<open>Path(version_directory).glob("**/*")\<close>: every entry strictly below the directory,
  in the order the file system lists them.\<close>

definition glob :: "filesystem \<Rightarrow> path \<Rightarrow> (path \<times> node) list" where
  "glob f version_directory = filter (\<lambda>e. strict_prefix version_directory (fst e)) f"

definition path_str :: "path \<Rightarrow> string" where
  "path_str p = concat (map (\<lambda>c. ''/'' @ c) p)"

text \<open>Modelled from the spec: \<open>mkdirp\<close> of \<open>ciel.common\<close>, which is not among the sources,
  creates the per-invocation output directory.\<close>

definition mkdirp :: "path \<Rightarrow> state \<Rightarrow> state" where
  "mkdirp d s = s\<lparr>dirs_made := dirs_made s @ [d]\<rparr>"

text \<open>\<open>tf.add(file, arcname=...)\<close> stores what the path holds under the given name and
  fails when the path does not exist. (For a directory \<open>tarfile\<close> would go on with its
  children; \<open>push\<close> only passes paths that passed \<open>is_file\<close>.)\<close>

definition tar_add :: "filesystem \<Rightarrow> path \<Rightarrow> path \<Rightarrow> error + member" where
  "tar_add f file arcname =
     (case map_of f file of
        None \<Rightarrow> Inl (FileNotFoundError (path_str file))
      | Some n \<Rightarrow> Inr (arcname, n))"

text \<open>\<open>subprocess.check_call\<close>: a program that cannot be started raises \<open>OSError\<close>, an exit
  status other than zero raises \<open>CalledProcessError\<close>.\<close>

definition check_call ::
  "((string list \<times> int) list \<Rightarrow> string list \<Rightarrow> proc_result) \<Rightarrow> state \<Rightarrow> string list
     \<Rightarrow> state \<times> (error + unit)" where
  "check_call run s argv =
     (case run (ghr_calls s) argv of
        NotLaunched msg \<Rightarrow> (s, Inl (OSError msg))
      | Exited rc \<Rightarrow>
          (s\<lparr>ghr_calls := ghr_calls s @ [(argv, rc)]\<rparr>,
           if rc = 0 then Inr () else Inl (CalledProcessError rc argv)))"

subsection \<open>Partitioning (lines 170 to 184)\<close>

text \<open>\<open>collections[k].append(p)\<close>; a missing key would raise \<open>KeyError\<close>.\<close>

definition append_to :: "collections \<Rightarrow> string \<Rightarrow> path \<Rightarrow> error + collections" where
  "append_to collections k p =
     (case map_of collections k of
        None \<Rightarrow> Inl (KeyError k)
      | Some files \<Rightarrow> Inr (AList.update k (files @ [p]) collections))"

text \<open>\<open>collections.get(lib) or []\<close>.\<close>

definition get_or_empty :: "collections \<Rightarrow> string \<Rightarrow> path list" where
  "get_or_empty collections lib =
     (case map_of collections lib of
        None \<Rightarrow> []
      | Some files \<Rightarrow> if files = [] then [] else files)"

text \<open>The body of the loop over the entries.\<close>

definition partition_step ::
  "path \<Rightarrow> string list \<Rightarrow> collections \<Rightarrow> path \<times> node \<Rightarrow> error + collections" where
  "partition_step version_directory library_list collections e =
     (case e of (path, n) \<Rightarrow>
        if \<not> is_file n then Inr collections
        else
          let relative = relpath path version_directory;
              path_components = relative
          in case getitem path_components 1 of
               Inl err \<Rightarrow> Inl err
             | Inr c1 \<Rightarrow>
                 if c1 = ''libs.ref'' then
                   (case getitem path_components 2 of
                      Inl err \<Rightarrow> Inl err
                    | Inr lib \<Rightarrow>
                        if lib \<notin> set library_list then Inr collections
                        else append_to
                               (AList.update lib (get_or_empty collections lib) collections)
                               lib path)
                 else append_to collections ''common'' path)"

fun partition_loop ::
  "path \<Rightarrow> string list \<Rightarrow> collections \<Rightarrow> (path \<times> node) list \<Rightarrow> error + collections" where
  "partition_loop version_directory library_list collections [] = Inr collections"
| "partition_loop version_directory library_list collections (e # es) =
     (case partition_step version_directory library_list collections e of
        Inl err \<Rightarrow> Inl err
      | Inr collections' \<Rightarrow> partition_loop version_directory library_list collections' es)"

definition partition_files :: "filesystem \<Rightarrow> path \<Rightarrow> string list \<Rightarrow> error + collections" where
  "partition_files f version_directory library_list =
     partition_loop version_directory library_list [(''common'', [])] (glob f version_directory)"

subsection \<open>Archives (lines 186 to 197)\<close>

text \<open>The inner loop: the members written so far stay in the file when a later one fails.\<close>

fun add_files :: "filesystem \<Rightarrow> path \<Rightarrow> member list \<Rightarrow> path list \<Rightarrow> member list \<times> error option" where
  "add_files f version_directory tf [] = (tf, None)"
| "add_files f version_directory tf (file # files) =
     (let path_in_tarball = relpath file version_directory
      in case tar_add f file path_in_tarball of
           Inl err \<Rightarrow> (tf, Some err)
         | Inr m \<Rightarrow> add_files f version_directory (tf @ [m]) files)"

fun compress_loop ::
  "filesystem \<Rightarrow> path \<Rightarrow> path \<Rightarrow> state \<Rightarrow> path list \<Rightarrow> collections
     \<Rightarrow> state \<times> (error + path list)" where
  "compress_loop f version_directory tarball_directory s final_tarballs [] =
     (s, Inr final_tarballs)"
| "compress_loop f version_directory tarball_directory s final_tarballs ((name, files) # rest) =
     (let tarball_path = tarball_directory @ [name @ ''.tar.zst''];
          (tf, err) = add_files f version_directory [] files;
          s' = s\<lparr>archives := AList.update tarball_path tf (archives s)\<rparr>
      in case err of
           Some e \<Rightarrow> (s', Inl e)
         | None \<Rightarrow>
             compress_loop f version_directory tarball_directory s'
               (final_tarballs @ [tarball_path]) rest)"

subsection \<open>Upload (lines 199 to 228)\<close>

definition ghr_argv ::
  "string \<Rightarrow> string \<Rightarrow> string \<Rightarrow> string \<Rightarrow> bool \<Rightarrow> string \<Rightarrow> path \<Rightarrow> string list" where
  "ghr_argv owner' repository' token body pre' tag tarball_path =
     [''ghr'', ''-owner'', owner', ''-repository'', repository', ''-token'', token,
      ''-body'', body, ''-commitish'', ''releases'', ''-replace'']
     @ replicate (if pre' then 1 else 0) ''-prerelease''
     @ [tag, path_str tarball_path]"

fun upload_loop ::
  "((string list \<times> int) list \<Rightarrow> string list \<Rightarrow> proc_result) \<Rightarrow> (path \<Rightarrow> string list)
     \<Rightarrow> state \<Rightarrow> path list \<Rightarrow> state \<times> (error + unit)" where
  "upload_loop run argv_of s [] = (s, Inr ())"
| "upload_loop run argv_of s (tarball_path # rest) =
     (case check_call run s (argv_of tarball_path) of
        (s', Inl err) \<Rightarrow> (s', Inl err)
      | (s', Inr u) \<Rightarrow> upload_loop run argv_of s' rest)"

subsection \<open>The whole of \<open>push\<close>\<close>

definition push :: "env \<Rightarrow> args \<Rightarrow> state \<times> (error + unit)" where
  "push E a =
     (case by_name E (pdk_family a) of
        None \<Rightarrow> (initial, Inl (KeyError (pdk_family a)))
      | Some fam \<Rightarrow>
     (case github_token E of
        None \<Rightarrow> (initial, Inl (TypeError ''No GitHub token was provided.''))
      | Some token \<Rightarrow>
     (let library_list =
            (case push_libraries a of
               None \<Rightarrow> all_libraries fam
             | Some ls \<Rightarrow> if length ls = 0 then all_libraries fam else ls);
          version_directory = get_dir E (version a) (pdk_family a) (pdk_root a)
      in if \<not> isdir (fs E) version_directory
         then (initial, Inl (FileNotFoundError (''Version '' @ version a @ '' not found.'')))
         else
           let tarball_directory = gettempdir E @ [''ciel'', uuid4 E, version a];
               s1 = mkdirp tarball_directory initial
           in case partition_files (fs E) version_directory library_list of
                Inl err \<Rightarrow> (s1, Inl err)
              | Inr collections \<Rightarrow>
           (case compress_loop (fs E) version_directory tarball_directory s1 [] collections of
                (s2, Inl err) \<Rightarrow> (s2, Inl err)
              | (s2, Inr final_tarballs) \<Rightarrow>
                  let tag = pdk_family a @ ''-'' @ version a;
                      body =
                        (case get_commit_date E (version a) (repo fam) of
                           None \<Rightarrow> pdk_family a @ '' variants built using ciel''
                         | Some date \<Rightarrow>
                             pdk_family a @ '' variants (released on ''
                               @ date_to_iso8601 E date @ '')'')
                  in upload_loop (ghr E)
                       (ghr_argv (owner a) (repository a) token body (pre a) tag)
                       s2 final_tarballs))))"

subsection \<open>Notions used to state the properties\<close>

text \<open>The files a collection holds (none for a name that is not a key).\<close>
definition files_of :: "collections \<Rightarrow> string \<Rightarrow> path list" where
  "files_of collections k = (case map_of collections k of None \<Rightarrow> [] | Some files \<Rightarrow> files)"

definition placement :: "string list \<Rightarrow> path \<Rightarrow> error + string option" where
  "placement library_list comps =
     (if length comps < 2 then Inl IndexError
      else if comps ! 1 = ''libs.ref'' then
        (if length comps < 3 then Inl IndexError
         else if comps ! 2 \<in> set library_list then Inr (Some (comps ! 2))
         else Inr None)
      else Inr (Some ''common''))"

definition assigned :: "path \<Rightarrow> string list \<Rightarrow> string \<Rightarrow> (path \<times> node) list \<Rightarrow> path list" where
  "assigned vd ll k es =
     map fst (filter (\<lambda>e. is_file (snd e) \<and> placement ll (relpath (fst e) vd) = Inr (Some k)) es)"

definition dropped :: "string list \<Rightarrow> path \<Rightarrow> bool" where
  "dropped library_list rel =
     (2 < length rel \<and> rel ! 1 = ''libs.ref'' \<and> rel ! 2 \<notin> set library_list)"

definition holders :: "collections \<Rightarrow> path \<Rightarrow> string list" where
  "holders collections p = map fst (filter (\<lambda>c. p \<in> set (snd c)) collections)"

text \<open>What the inner loop writes for a list of files that all exist.\<close>

definition members_of :: "filesystem \<Rightarrow> path \<Rightarrow> path list \<Rightarrow> member list" where
  "members_of f vd files = map (\<lambda>file. (relpath file vd, the (map_of f file))) files"

definition tarball_of :: "path \<Rightarrow> string \<Rightarrow> path" where
  "tarball_of tarball_directory name = tarball_directory @ [name @ ''.tar.zst'']"

text \<open>A relative path on which the loop body finds every component it reads.\<close>

definition well_placed :: "path \<Rightarrow> bool" where
  "well_placed rel = (2 \<le> length rel \<and> (rel ! 1 = ''libs.ref'' \<longrightarrow> 3 \<le> length rel))"

text \<open>Extracting every archive written into one directory: all members, in order.\<close>

definition extract_all :: "state \<Rightarrow> member list" where
  "extract_all s = concat (map snd (archives s))"

text \<open>The values \<open>push\<close> computes on its way: the allow-list (lines 154 to 156), the
  version directory (line 159), the output directory (line 164), the release body (lines
  204 to 207) and the command line of one upload (lines 211 to 227).\<close>

definition library_list_of :: "family \<Rightarrow> string list option \<Rightarrow> string list" where
  "library_list_of fam libs =
     (case libs of None \<Rightarrow> all_libraries fam
      | Some ls \<Rightarrow> if length ls = 0 then all_libraries fam else ls)"

definition version_directory_of :: "env \<Rightarrow> args \<Rightarrow> path" where
  "version_directory_of E a = get_dir E (version a) (pdk_family a) (pdk_root a)"

definition tarball_directory_of :: "env \<Rightarrow> args \<Rightarrow> path" where
  "tarball_directory_of E a = gettempdir E @ [''ciel'', uuid4 E, version a]"

definition release_body :: "env \<Rightarrow> args \<Rightarrow> family \<Rightarrow> string" where
  "release_body E a fam =
     (case get_commit_date E (version a) (repo fam) of
        None \<Rightarrow> pdk_family a @ '' variants built using ciel''
      | Some date \<Rightarrow>
          pdk_family a @ '' variants (released on '' @ date_to_iso8601 E date @ '')'')"

definition upload_argv :: "env \<Rightarrow> args \<Rightarrow> family \<Rightarrow> string \<Rightarrow> path \<Rightarrow> string list" where
  "upload_argv E a fam token =
     ghr_argv (owner a) (repository a) token (release_body E a fam) (pre a)
       (pdk_family a @ ''-'' @ version a)"

text \<open>The state in which the uploads start: the output directory made, the archives
  written.\<close>

definition staged :: "env \<Rightarrow> args \<Rightarrow> collections \<Rightarrow> state" where
  "staged E a colls =
     fst (compress_loop (fs E) (version_directory_of E a) (tarball_directory_of E a)
            (mkdirp (tarball_directory_of E a) initial) [] colls)"

subsection \<open>A concrete installation\<close>

text \<open>A family with two libraries, a version directory in the layout the builds produce
  (one directory per variant, the libraries below its \<open>libs.ref\<close>), and the same files
  laid out directly below the version directory.\<close>

definition example_family :: family where
  "example_family = \<lparr>all_libraries = [''lib1'', ''lib2''], repo = ''pdk.git''\<rparr>"

definition example_dir :: path where
  "example_dir = [''pdk'', ''sky130'', ''v1'']"

definition example_tree :: filesystem where
  "example_tree =
     [(example_dir, Directory),
      (example_dir @ [''v''], Directory),
      (example_dir @ [''v'', ''a.txt''], RegFile ''A''),
      (example_dir @ [''v'', ''libs.ref''], Directory),
      (example_dir @ [''v'', ''libs.ref'', ''lib1''], Directory),
      (example_dir @ [''v'', ''libs.ref'', ''lib1'', ''x.lef''], RegFile ''X''),
      (example_dir @ [''v'', ''libs.ref'', ''lib2''], Directory),
      (example_dir @ [''v'', ''libs.ref'', ''lib2'', ''y.lef''], RegFile ''Y'')]"

definition flat_tree :: filesystem where
  "flat_tree =
     [(example_dir, Directory),
      (example_dir @ [''a.txt''], RegFile ''A''),
      (example_dir @ [''libs.ref''], Directory),
      (example_dir @ [''libs.ref'', ''lib1''], Directory),
      (example_dir @ [''libs.ref'', ''lib1'', ''x.lef''], RegFile ''X''),
      (example_dir @ [''libs.ref'', ''lib2''], Directory),
      (example_dir @ [''libs.ref'', ''lib2'', ''y.lef''], RegFile ''Y'')]"

definition example_env ::
  "(string \<Rightarrow> family option) \<Rightarrow> string option \<Rightarrow> filesystem
     \<Rightarrow> ((string list \<times> int) list \<Rightarrow> string list \<Rightarrow> proc_result) \<Rightarrow> env" where
  "example_env registry token f run =
     \<lparr>by_name = registry, github_token = token,
      get_dir = (\<lambda>v fam root. [root, fam, v]), fs = f,
      gettempdir = [''tmp''], uuid4 = ''u'',
      get_commit_date = (\<lambda>v r. None), date_to_iso8601 = (\<lambda>d. d), ghr = run\<rparr>"

definition example_registry :: "string \<Rightarrow> family option" where
  "example_registry n = (if n = ''sky130'' then Some example_family else None)"

definition example_args :: "string list option \<Rightarrow> args" where
  "example_args libs =
     \<lparr>pdk_root = ''pdk'', pdk_family = ''sky130'', version = ''v1'', owner = ''o'',
      repository = ''r'', pre = False, push_libraries = libs\<rparr>"

text \<open>An uploader that always succeeds, and one that fails at its second call.\<close>

definition ghr_ok :: "(string list \<times> int) list \<Rightarrow> string list \<Rightarrow> proc_result" where
  "ghr_ok calls argv = Exited 0"

definition ghr_fails_second :: "(string list \<times> int) list \<Rightarrow> string list \<Rightarrow> proc_result" where
  "ghr_fails_second calls argv = (if length calls = 1 then Exited 1 else Exited 0)"

section \<open>Properties\<close>

subsection \<open>Paths\<close>

lemma commonprefix_append: "commonprefix vd (vd @ rel) = vd"
  by (induction vd) auto

lemma relpath_append: "rel \<noteq> [] \<Longrightarrow> relpath (vd @ rel) vd = rel"
  by (simp add: relpath_def commonprefix_append)

lemma strict_prefix_split:
  assumes "strict_prefix vd p"
  shows "vd @ drop (length vd) p = p" and "drop (length vd) p \<noteq> []"
  using assms by (auto simp: strict_prefix_def prefix_def)

lemma relpath_under: "strict_prefix vd p \<Longrightarrow> relpath p vd = drop (length vd) p"
  using relpath_append [of "drop (length vd) p" vd] strict_prefix_split [of vd p] by simp

subsection \<open>The loop body and the loop\<close>

lemma partition_step_cases:
  "partition_step vd ll colls (p, n) =
     (if \<not> is_file n then Inr colls
      else case placement ll (relpath p vd) of
             Inl err \<Rightarrow> Inl err
           | Inr None \<Rightarrow> Inr colls
           | Inr (Some k) \<Rightarrow>
               if k = ''common'' \<and> (length (relpath p vd) < 3 \<or> relpath p vd ! 1 \<noteq> ''libs.ref'')
               then append_to colls ''common'' p
               else append_to (AList.update k (get_or_empty colls k) colls) k p)"
  by (auto simp: partition_step_def placement_def getitem_def Let_def)

lemma append_to_update:
  "append_to (AList.update k (get_or_empty colls k) colls) k p =
     Inr (AList.update k (files_of colls k @ [p]) colls)"
  by (auto simp: append_to_def get_or_empty_def files_of_def update_conv' split: option.splits)

lemma append_to_present:
  "k \<in> fst ` set colls \<Longrightarrow> append_to colls k p = Inr (AList.update k (files_of colls k @ [p]) colls)"
  by (auto simp: append_to_def files_of_def map_of_eq_None_iff split: option.splits)

lemma partition_step_placed:
  assumes "''common'' \<in> fst ` set colls" and "is_file n"
    and "placement ll (relpath p vd) = Inr (Some k)"
  shows "partition_step vd ll colls (p, n) = Inr (AList.update k (files_of colls k @ [p]) colls)"
  using assms by (auto simp: partition_step_cases append_to_update append_to_present)

lemma files_of_update:
  "files_of (AList.update k v colls) k' = (if k' = k then v else files_of colls k')"
  by (simp add: files_of_def update_conv')

lemma assigned_Cons:
  "assigned vd ll k ((p, n) # es) =
     (if is_file n \<and> placement ll (relpath p vd) = Inr (Some k) then [p] else []) @ assigned vd ll k es"
  by (simp add: assigned_def)

lemma assigned_Nil: "assigned vd ll k [] = []"
  by (simp add: assigned_def)

lemma partition_loop_char:
  assumes "partition_loop vd ll colls es = Inr colls'"
    and "distinct (map fst colls)" and "''common'' \<in> fst ` set colls"
  shows "distinct (map fst colls') \<and>
         fst ` set colls' = fst ` set colls \<union> {k. assigned vd ll k es \<noteq> []} \<and>
         (\<forall>k. files_of colls' k = files_of colls k @ assigned vd ll k es)"
  using assms
proof (induction es arbitrary: colls)
  case Nil
  then show ?case by (simp add: assigned_Nil)
next
  case (Cons e es)
  obtain p n where e: "e = (p, n)" by (cases e)
  from Cons.prems(1) obtain c1 where
    step: "partition_step vd ll colls (p, n) = Inr c1" and
    rest: "partition_loop vd ll c1 es = Inr colls'"
    by (auto simp: e split: sum.splits)
  show ?case
  proof (cases "is_file n \<and> (\<exists>k. placement ll (relpath p vd) = Inr (Some k))")
    case True
    then obtain k where f: "is_file n" and pl: "placement ll (relpath p vd) = Inr (Some k)" by blast
    have c1: "c1 = AList.update k (files_of colls k @ [p]) colls"
      using step partition_step_placed [OF Cons.prems(3) f pl] by simp
    have d1: "distinct (map fst c1)" using Cons.prems(2) by (simp add: c1 distinct_update)
    have k1: "''common'' \<in> fst ` set c1" using Cons.prems(3) by (simp add: c1 dom_update)
    note IH = Cons.IH [OF rest d1 k1]
    have keys: "fst ` set c1 = insert k (fst ` set colls)" by (simp add: c1 dom_update)
    show ?thesis
      using IH f pl unfolding e assigned_Cons keys
      by (auto simp: c1 files_of_update)
  next
    case False
    then have c1: "c1 = colls"
      using step by (auto simp: partition_step_cases split: if_splits sum.splits option.splits)
    note IH = Cons.IH [OF rest [unfolded c1] Cons.prems(2) Cons.prems(3)]
    show ?thesis
      using IH False unfolding e assigned_Cons by auto
  qed
qed

subsection \<open>When partitioning fails and when it completes\<close>

lemma placement_error: "placement ll comps = Inl err \<Longrightarrow> err = IndexError"
  by (auto simp: placement_def split: if_splits)

lemma partition_step_error:
  assumes "''common'' \<in> fst ` set colls" and "partition_step vd ll colls (p, n) = Inl err"
  shows "err = IndexError"
  using assms
  by (auto simp: partition_step_cases append_to_update append_to_present
           split: if_splits sum.splits option.splits dest: placement_error)

lemma partition_step_common:
  assumes "''common'' \<in> fst ` set colls" and "partition_step vd ll colls e = Inr colls'"
  shows "''common'' \<in> fst ` set colls'"
proof -
  obtain p n where e: "e = (p, n)" by (cases e)
  have "colls' = colls \<or> (\<exists>k v. colls' = AList.update k v colls)"
    using assms unfolding e
    by (simp add: partition_step_cases append_to_update append_to_present
             split: if_splits sum.splits option.splits) blast+
  then show ?thesis
    using assms(1) by (elim disjE exE) (simp_all add: dom_update)
qed

lemma partition_step_misplaced:
  assumes "''common'' \<in> fst ` set colls" and "is_file n"
    and "placement ll (relpath p vd) = Inl IndexError"
  shows "partition_step vd ll colls (p, n) = Inl IndexError"
  using assms by (simp add: partition_step_cases)

lemma partition_loop_misplaced:
  assumes "''common'' \<in> fst ` set colls" and "(p, n) \<in> set es" and "is_file n"
    and "placement ll (relpath p vd) = Inl IndexError"
  shows "partition_loop vd ll colls es = Inl IndexError"
  using assms
proof (induction es arbitrary: colls)
  case Nil
  then show ?case by simp
next
  case (Cons e es)
  obtain q m where e: "e = (q, m)" by (cases e)
  show ?case
  proof (cases "partition_step vd ll colls e")
    case (Inl err)
    then show ?thesis
      using partition_step_error [OF Cons.prems(1), of vd ll q m err] by (simp add: e)
  next
    case (Inr c1)
    have k1: "''common'' \<in> fst ` set c1"
      using partition_step_common [OF Cons.prems(1) Inr] .
    have "(p, n) \<in> set es"
      using Cons.prems Inr partition_step_misplaced [OF Cons.prems(1), of n ll p vd]
      by (auto simp: e)
    then show ?thesis
      using Cons.IH [OF k1 _ Cons.prems(3) Cons.prems(4)] Inr by simp
  qed
qed

lemma partition_loop_total:
  assumes "''common'' \<in> fst ` set colls"
    and "\<forall>e \<in> set es. is_file (snd e) \<longrightarrow> placement ll (relpath (fst e) vd) \<noteq> Inl IndexError"
  shows "\<exists>colls'. partition_loop vd ll colls es = Inr colls'"
  using assms
proof (induction es arbitrary: colls)
  case Nil
  then show ?case by simp
next
  case (Cons e es)
  obtain q m where e: "e = (q, m)" by (cases e)
  show ?case
  proof (cases "partition_step vd ll colls e")
    case (Inl err)
    then have "is_file m \<and> placement ll (relpath q vd) = Inl IndexError"
      using Cons.prems(1) unfolding e
      by (auto simp: partition_step_cases append_to_update append_to_present
           split: if_splits sum.splits option.splits dest: placement_error)
    then show ?thesis using Cons.prems(2) by (simp add: e)
  next
    case (Inr c1)
    have k1: "''common'' \<in> fst ` set c1"
      using partition_step_common [OF Cons.prems(1) Inr] .
    show ?thesis using Cons.IH [OF k1] Cons.prems(2) Inr by simp
  qed
qed

lemma partition_loop_common:
  assumes "partition_loop vd ll colls es = Inr colls'" and "''common'' \<in> fst ` set colls"
  shows "''common'' \<in> fst ` set colls'"
  using assms
proof (induction es arbitrary: colls)
  case Nil
  then show ?case by simp
next
  case (Cons e es)
  from Cons.prems(1) obtain c1 where
    step: "partition_step vd ll colls e = Inr c1" and
    rest: "partition_loop vd ll c1 es = Inr colls'"
    by (auto split: sum.splits)
  show ?case
    by (rule Cons.IH [OF rest partition_step_common [OF Cons.prems(2) step]])
qed

lemma glob_member:
  "(p, n) \<in> set (glob f vd) \<longleftrightarrow> (p, n) \<in> set f \<and> strict_prefix vd p"
  by (auto simp: glob_def)

lemma partition_files_misplaced:
  assumes "(p, n) \<in> set f" and "strict_prefix vd p" and "is_file n"
    and "placement ll (drop (length vd) p) = Inl IndexError"
  shows "partition_files f vd ll = Inl IndexError"
  unfolding partition_files_def
  by (rule partition_loop_misplaced [where p = p and n = n])
     (use assms in \<open>simp_all add: glob_member relpath_under\<close>)

subsection \<open>The result of a completed partition\<close>

lemma placement_None: "placement ll rel = Inr None \<longleftrightarrow> dropped ll rel"
  by (auto simp: placement_def dropped_def)

lemma placement_Some:
  "placement ll rel = Inr (Some k) \<longleftrightarrow>
     2 \<le> length rel \<and> (rel ! 1 = ''libs.ref'' \<longrightarrow> 3 \<le> length rel) \<and> \<not> dropped ll rel \<and>
     k = (if rel ! 1 = ''libs.ref'' then rel ! 2 else ''common'')"
  by (auto simp: placement_def dropped_def)

lemma in_assigned:
  "p \<in> set (assigned vd ll k es) \<longleftrightarrow>
     (\<exists>n. (p, n) \<in> set es \<and> is_file n \<and> placement ll (relpath p vd) = Inr (Some k))"
  by (force simp: assigned_def)

lemma partition_files_char:
  assumes "partition_files f vd ll = Inr colls"
  shows "distinct (map fst colls)"
    and "fst ` set colls = insert ''common'' {k. assigned vd ll k (glob f vd) \<noteq> []}"
    and "(k, files) \<in> set colls \<Longrightarrow> files = assigned vd ll k (glob f vd)"
proof -
  have loop: "partition_loop vd ll [(''common'', [])] (glob f vd) = Inr colls"
    using assms by (simp add: partition_files_def)
  have c: "distinct (map fst colls) \<and>
         fst ` set colls = fst ` set [(''common'', [])] \<union> {k. assigned vd ll k (glob f vd) \<noteq> []} \<and>
         (\<forall>k. files_of colls k = files_of [(''common'', [])] k @ assigned vd ll k (glob f vd))"
    using partition_loop_char [OF loop] by simp
  show d: "distinct (map fst colls)" using c by simp
  show "fst ` set colls = insert ''common'' {k. assigned vd ll k (glob f vd) \<noteq> []}"
    using c by simp
  assume "(k, files) \<in> set colls"
  then have "map_of colls k = Some files" using d by simp
  then have "files_of colls k = files" by (simp add: files_of_def)
  moreover have "files_of colls k = assigned vd ll k (glob f vd)"
    using c by (simp add: files_of_def)
  ultimately show "files = assigned vd ll k (glob f vd)" by simp
qed

lemma partition_files_placed:
  assumes "partition_files f vd ll = Inr colls"
    and "(p, n) \<in> set f" and "strict_prefix vd p" and "is_file n"
  shows "placement ll (drop (length vd) p) \<noteq> Inl IndexError"
  using assms partition_files_misplaced [of p n f vd ll] by auto

lemma filter_eq_singleton:
  "distinct xs \<Longrightarrow> x \<in> set xs \<Longrightarrow> filter (\<lambda>k. k = x) xs = [x]"
proof (induction xs)
  case Nil
  then show ?case by simp
next
  case (Cons y ys)
  then show ?case by (auto simp: filter_empty_conv)
qed

lemma holds_iff:
  assumes "partition_files f vd ll = Inr colls"
    and "(p, n) \<in> set f" and "strict_prefix vd p" and "is_file n"
    and "(k, files) \<in> set colls"
  shows "p \<in> set files \<longleftrightarrow> placement ll (drop (length vd) p) = Inr (Some k)"
proof -
  have files: "files = assigned vd ll k (glob f vd)"
    by (rule partition_files_char(3) [OF assms(1) assms(5)])
  show ?thesis
    unfolding files in_assigned
    using assms(2,3,4) by (auto simp: glob_member relpath_under)
qed

lemma holders_placed:
  assumes "partition_files f vd ll = Inr colls"
    and "(p, n) \<in> set f" and "strict_prefix vd p" and "is_file n"
    and "placement ll (drop (length vd) p) = Inr (Some k)"
  shows "holders colls p = [k]"
proof -
  have "p \<in> set (assigned vd ll k (glob f vd))"
    unfolding in_assigned using assms(2-5) by (auto simp: glob_member relpath_under)
  then have "k \<in> fst ` set colls"
    unfolding partition_files_char(2) [OF assms(1)] by auto
  then have k: "k \<in> set (map fst colls)" by simp
  have "filter (\<lambda>c. p \<in> set (snd c)) colls = filter (\<lambda>c. fst c = k) colls"
  proof (rule filter_cong [OF refl])
    fix c assume "c \<in> set colls"
    then have "(fst c, snd c) \<in> set colls" by simp
    from holds_iff [OF assms(1-4) this] assms(5)
    show "(p \<in> set (snd c)) = (fst c = k)" by auto
  qed
  then have "holders colls p = filter (\<lambda>x. x = k) (map fst colls)"
    by (simp add: holders_def filter_map comp_def)
  then show ?thesis
    using filter_eq_singleton [OF partition_files_char(1) [OF assms(1)] k] by simp
qed

lemma holders_dropped:
  assumes "partition_files f vd ll = Inr colls"
    and "(p, n) \<in> set f" and "strict_prefix vd p" and "is_file n"
    and "dropped ll (drop (length vd) p)"
  shows "holders colls p = []"
proof -
  have "\<And>c. c \<in> set colls \<Longrightarrow> p \<notin> set (snd c)"
  proof -
    fix c assume "c \<in> set colls"
    then have "(fst c, snd c) \<in> set colls" by simp
    from holds_iff [OF assms(1-4) this] assms(5)
    show "p \<notin> set (snd c)" by (simp add: placement_None [symmetric])
  qed
  then show ?thesis by (simp add: holders_def filter_empty_conv)
qed

subsection \<open>The example, evaluated\<close>

lemmas example_defs =
  example_env_def example_registry_def example_args_def example_family_def example_dir_def
  example_tree_def flat_tree_def ghr_ok_def ghr_fails_second_def

lemmas partition_eval =
  partition_files_def glob_def partition_step_def relpath_def getitem_def append_to_def
  get_or_empty_def

lemma example_partition:
  "partition_files example_tree example_dir [''lib1''] =
     Inr [(''common'', [example_dir @ [''v'', ''a.txt'']]),
          (''lib1'', [example_dir @ [''v'', ''libs.ref'', ''lib1'', ''x.lef'']])]"
  by (simp add: partition_eval example_defs)

lemma flat_partition: "partition_files flat_tree example_dir [''lib1''] = Inl IndexError"
  by (simp add: partition_eval example_defs)

subsection \<open>Files the loop skips\<close>

lemma not_held_when_dropped:
  assumes "partition_files f vd ll = Inr colls"
    and "(p, n) \<in> set f" and "strict_prefix vd p" and "is_file n"
    and "dropped ll (drop (length vd) p)"
    and "(name, files) \<in> set colls"
  shows "p \<notin> set files"
  using holds_iff [OF assms(1-4) assms(6)] assms(5)
  by (simp add: placement_None [symmetric])

subsection \<open>The archive loop\<close>

lemma add_files_present:
  assumes "\<forall>file \<in> set files. map_of f file \<noteq> None"
  shows "add_files f vd tf files = (tf @ members_of f vd files, None)"
  using assms
proof (induction files arbitrary: tf)
  case Nil
  then show ?case by (simp add: members_of_def)
next
  case (Cons fl files)
  then obtain n where n: "map_of f fl = Some n" by auto
  have "add_files f vd (tf @ [(relpath fl vd, n)]) files =
          ((tf @ [(relpath fl vd, n)]) @ members_of f vd files, None)"
    using Cons by simp
  then show ?case
    by (simp add: tar_add_def n members_of_def)
qed

lemma update_fresh: "k \<notin> fst ` set al \<Longrightarrow> AList.update k v al = al @ [(k, v)]"
  by (induction al) auto

lemma tarball_of_inj: "tarball_of td a = tarball_of td b \<longleftrightarrow> a = b"
  by (simp add: tarball_of_def)

lemma compress_loop_present:
  assumes "\<forall>c \<in> set colls. \<forall>file \<in> set (snd c). map_of f file \<noteq> None"
    and "distinct (map fst colls)"
    and "\<forall>c \<in> set colls. tarball_of td (fst c) \<notin> fst ` set (archives s)"
  shows "compress_loop f vd td s final_tarballs colls =
           (s\<lparr>archives := archives s
                 @ map (\<lambda>c. (tarball_of td (fst c), members_of f vd (snd c))) colls\<rparr>,
            Inr (final_tarballs @ map (\<lambda>c. tarball_of td (fst c)) colls))"
  using assms
proof (induction colls arbitrary: s final_tarballs)
  case Nil
  then show ?case by simp
next
  case (Cons c colls)
  obtain name files where c: "c = (name, files)" by (cases c)
  let ?s' = "s\<lparr>archives := archives s @ [(tarball_of td name, members_of f vd files)]\<rparr>"
  have files: "add_files f vd [] files = (members_of f vd files, None)"
    using Cons.prems(1) add_files_present [of files f vd "[]"] by (simp add: c)
  have fresh: "tarball_of td name \<notin> fst ` set (archives s)"
    using Cons.prems(3) by (simp add: c)
  have step: "compress_loop f vd td s final_tarballs (c # colls) =
                compress_loop f vd td ?s' (final_tarballs @ [tarball_of td name]) colls"
    by (simp add: c files update_fresh [OF fresh] tarball_of_def [symmetric] Let_def)
  have p1: "\<forall>c \<in> set colls. \<forall>file \<in> set (snd c). map_of f file \<noteq> None"
    using Cons.prems(1) by simp
  have p2: "distinct (map fst colls)" using Cons.prems(2) by simp
  have p3: "\<forall>c' \<in> set colls. tarball_of td (fst c') \<notin> fst ` set (archives ?s')"
    using Cons.prems(2,3) by (auto simp: c tarball_of_inj)
  show ?case
    unfolding step Cons.IH [OF p1 p2 p3] by (simp add: c)
qed

lemma collected_present:
  assumes "partition_files f vd ll = Inr colls" and "c \<in> set colls" and "file \<in> set (snd c)"
  shows "\<exists>n. (file, n) \<in> set f \<and> strict_prefix vd file \<and> is_file n \<and>
             placement ll (drop (length vd) file) = Inr (Some (fst c))"
proof -
  have "(fst c, snd c) \<in> set colls" using assms(2) by simp
  then have "snd c = assigned vd ll (fst c) (glob f vd)"
    by (rule partition_files_char(3) [OF assms(1)])
  then have "file \<in> set (assigned vd ll (fst c) (glob f vd))" using assms(3) by simp
  then show ?thesis
    unfolding in_assigned by (auto simp: glob_member relpath_under)
qed

lemma compress_after_partition:
  assumes "partition_files f vd ll = Inr colls" and "archives s = []"
  shows "compress_loop f vd td s [] colls =
           (s\<lparr>archives := map (\<lambda>c. (tarball_of td (fst c), members_of f vd (snd c))) colls\<rparr>,
            Inr (map (\<lambda>c. tarball_of td (fst c)) colls))"
proof -
  have p1: "\<forall>c \<in> set colls. \<forall>file \<in> set (snd c). map_of f file \<noteq> None"
  proof (intro ballI)
    fix c fl assume "c \<in> set colls" "fl \<in> set (snd c)"
    from collected_present [OF assms(1) this] obtain n where "(fl, n) \<in> set f" by blast
    then have "fl \<in> fst ` set f" by force
    then show "map_of f fl \<noteq> None" by (simp add: map_of_eq_None_iff)
  qed
  have p3: "\<forall>c \<in> set colls. tarball_of td (fst c) \<notin> fst ` set (archives s)"
    using assms(2) by simp
  show ?thesis
    using compress_loop_present [OF p1 partition_files_char(1) [OF assms(1)] p3, of vd "[]"]
      assms(2) by simp
qed

lemma members_names:
  assumes "partition_files f vd ll = Inr colls" and "c \<in> set colls"
  shows "map fst (members_of f vd (snd c)) = map (\<lambda>fl. drop (length vd) fl) (snd c)"
proof -
  have "\<And>fl. fl \<in> set (snd c) \<Longrightarrow> relpath fl vd = drop (length vd) fl"
    using collected_present [OF assms] relpath_under by blast
  then show ?thesis by (simp add: members_of_def comp_def)
qed

lemma example_compress:
  "compress_loop example_tree example_dir [''tmp''] initial []
     [(''common'', [example_dir @ [''v'', ''a.txt'']]),
      (''lib1'', [example_dir @ [''v'', ''libs.ref'', ''lib1'', ''x.lef'']])] =
   (\<lparr>dirs_made = [],
     archives =
       [([''tmp'', ''common.tar.zst''], [([''v'', ''a.txt''], RegFile ''A'')]),
        ([''tmp'', ''lib1.tar.zst''], [([''v'', ''libs.ref'', ''lib1'', ''x.lef''], RegFile ''X'')])],
     ghr_calls = []\<rparr>,
    Inr [[''tmp'', ''common.tar.zst''], [''tmp'', ''lib1.tar.zst'']])"
  by (simp add: example_defs initial_def tar_add_def relpath_def Let_def)

subsection \<open>Trees on which the partition completes\<close>

lemma partition_loop_no_files:
  assumes "\<forall>e \<in> set es. \<not> is_file (snd e)"
  shows "partition_loop vd ll colls es = Inr colls"
  using assms
proof (induction es)
  case Nil
  then show ?case by simp
next
  case (Cons e es)
  obtain p n where e: "e = (p, n)" by (cases e)
  have "partition_step vd ll colls e = Inr colls"
    using Cons.prems by (simp add: e partition_step_def)
  then show ?case using Cons by simp
qed

lemma placement_well_placed: "placement ll rel \<noteq> Inl IndexError \<longleftrightarrow> well_placed rel"
  by (auto simp: placement_def well_placed_def)

lemma partition_files_total:
  assumes "\<forall>e \<in> set f. strict_prefix vd (fst e) \<and> is_file (snd e) \<longrightarrow>
             well_placed (drop (length vd) (fst e))"
  shows "\<exists>colls. partition_files f vd ll = Inr colls"
  unfolding partition_files_def
proof (rule partition_loop_total)
  show "''common'' \<in> fst ` set [(''common'', [])]" by simp
  show "\<forall>e \<in> set (glob f vd). is_file (snd e) \<longrightarrow>
          placement ll (relpath (fst e) vd) \<noteq> Inl IndexError"
    using assms by (auto simp: glob_def relpath_under placement_well_placed)
qed

lemma partition_files_common:
  assumes "partition_files f vd ll = Inr colls"
  shows "''common'' \<in> fst ` set colls"
  using partition_files_char(2) [OF assms] by simp

text \<open>
  The dictionary starts as \<open>{"common": []}\<close> and no key is ever removed. So a partition
  result has the key \<open>common\<close>, whatever the allow-list, and the archive loop that follows
  completes and writes \<open>common.tar.zst\<close>. When the version directory holds no regular file
  the result is the single empty collection \<open>common\<close>, and the archive written for it has
  no member. There is a partition result whenever every regular file lies at least two
  components deep, and three when the second one is \<open>libs.ref\<close>.
\<close>

lemma common_present_when_complete:
  "(partition_files f vd ll = Inr colls \<and> archives s = [] \<longrightarrow>
      ''common'' \<in> fst ` set colls \<and>
      (\<exists>s' tarballs. compress_loop f vd td s [] colls = (s', Inr tarballs) \<and>
         td @ [''common.tar.zst''] \<in> set tarballs \<and>
         td @ [''common.tar.zst''] \<in> fst ` set (archives s'))) \<and>
   ((\<forall>e \<in> set f. strict_prefix vd (fst e) \<longrightarrow> \<not> is_file (snd e)) \<longrightarrow>
      partition_files f vd ll = Inr [(''common'', [])] \<and>
      compress_loop f vd td initial [] [(''common'', [])] =
        (initial\<lparr>archives := [(td @ [''common.tar.zst''], [])]\<rparr>,
         Inr [td @ [''common.tar.zst'']])) \<and>
   ((\<forall>e \<in> set f. strict_prefix vd (fst e) \<and> is_file (snd e) \<longrightarrow>
        well_placed (drop (length vd) (fst e))) \<longrightarrow>
      (\<exists>result. partition_files f vd ll = Inr result))"
proof (intro conjI impI)
  assume a: "partition_files f vd ll = Inr colls \<and> archives s = []"
  then have p: "partition_files f vd ll = Inr colls" and e: "archives s = []" by simp_all
  show c: "''common'' \<in> fst ` set colls" by (rule partition_files_common [OF p])
  let ?new = "map (\<lambda>c. (tarball_of td (fst c), members_of f vd (snd c))) colls"
  show "\<exists>s' tarballs. compress_loop f vd td s [] colls = (s', Inr tarballs) \<and>
         td @ [''common.tar.zst''] \<in> set tarballs \<and>
         td @ [''common.tar.zst''] \<in> fst ` set (archives s')"
  proof (intro exI conjI)
    show "compress_loop f vd td s [] colls =
            (s\<lparr>archives := ?new\<rparr>, Inr (map (\<lambda>c. tarball_of td (fst c)) colls))"
      by (rule compress_after_partition [OF p e])
    have "tarball_of td ''common'' \<in> (\<lambda>c. tarball_of td (fst c)) ` set colls"
      using c by force
    then show "td @ [''common.tar.zst''] \<in> set (map (\<lambda>c. tarball_of td (fst c)) colls)"
      by (simp add: tarball_of_def)
    then show "td @ [''common.tar.zst''] \<in> fst ` set (archives (s\<lparr>archives := ?new\<rparr>))"
      by (simp add: image_image)
  qed
next
  assume "\<forall>e \<in> set f. strict_prefix vd (fst e) \<longrightarrow> \<not> is_file (snd e)"
  then have "\<forall>e \<in> set (glob f vd). \<not> is_file (snd e)"
    by (simp add: glob_def)
  then show "partition_files f vd ll = Inr [(''common'', [])]"
    unfolding partition_files_def by (rule partition_loop_no_files)
next
  show "compress_loop f vd td initial [] [(''common'', [])] =
        (initial\<lparr>archives := [(td @ [''common.tar.zst''], [])]\<rparr>,
         Inr [td @ [''common.tar.zst'']])"
    by (simp add: initial_def Let_def)
next
  assume "\<forall>e \<in> set f. strict_prefix vd (fst e) \<and> is_file (snd e) \<longrightarrow>
        well_placed (drop (length vd) (fst e))"
  then show "\<exists>result. partition_files f vd ll = Inr result"
    by (rule partition_files_total)
qed

lemma common_present_example:
  "partition_files example_tree example_dir [] = Inr [(''common'', [example_dir @ [''v'', ''a.txt'']])] \<and>
   ''common'' \<in> fst ` set [(''common'', [example_dir @ [''v'', ''a.txt'']])] \<and>
   partition_files [(example_dir, Directory), (example_dir @ [''v''], Directory)] example_dir []
     = Inr [(''common'', [])] \<and>
   (\<exists>result. partition_files example_tree example_dir [''lib1'', ''lib2''] = Inr result)"
proof -
  have h4: "\<forall>e \<in> set example_tree. strict_prefix example_dir (fst e) \<and> is_file (snd e) \<longrightarrow>
      well_placed (drop (length example_dir) (fst e))"
    by (simp add: example_tree_def example_dir_def well_placed_def)
  have h1: "partition_files example_tree example_dir [] =
              Inr [(''common'', [example_dir @ [''v'', ''a.txt'']])]"
    by (simp add: partition_eval example_defs)
  have h2: "archives initial = []" by (simp add: initial_def)
  have h3: "\<forall>e \<in> set [(example_dir, Directory), (example_dir @ [''v''], Directory)].
      strict_prefix example_dir (fst e) \<longrightarrow> \<not> is_file (snd e)"
    by simp
  show ?thesis
    using common_present_when_complete [of example_tree example_dir "[]"
        "[(''common'', [example_dir @ [''v'', ''a.txt'']])]" initial "[''tmp'']"]
      common_present_when_complete [of "[(example_dir, Directory), (example_dir @ [''v''], Directory)]"
        example_dir "[]" "[]" initial "[''tmp'']"]
      common_present_when_complete [of example_tree example_dir "[''lib1'', ''lib2'']" "[]" initial
        "[''tmp'']"]
      h1 h2 h3 h4
    by blast
qed

subsection \<open>All the members together\<close>

lemma is_file_RegFile: "is_file n \<Longrightarrow> \<exists>c. n = RegFile c"
  by (cases n) simp_all

lemma extracted_members:
  assumes "distinct (map fst f)" and "partition_files f vd ll = Inr colls"
  shows "(\<Union>c \<in> set colls. set (members_of f vd (snd c))) =
           {(drop (length vd) p, RegFile c) | p c.
              (p, RegFile c) \<in> set f \<and> strict_prefix vd p \<and> \<not> dropped ll (drop (length vd) p)}"
    (is "?L = ?R")
proof (rule set_eqI, rule iffI)
  fix m assume "m \<in> ?L"
  then obtain c fl where c: "c \<in> set colls" and fl: "fl \<in> set (snd c)"
    and m: "m = (relpath fl vd, the (map_of f fl))"
    by (auto simp: members_of_def)
  from collected_present [OF assms(2) c fl] obtain n where
    n: "(fl, n) \<in> set f" and u: "strict_prefix vd fl" and r: "is_file n"
    and pl: "placement ll (drop (length vd) fl) = Inr (Some (fst c))"
    by blast
  from r obtain b where b: "n = RegFile b" using is_file_RegFile by blast
  have look: "map_of f fl = Some (RegFile b)"
    using assms(1) n b by simp
  have nd: "\<not> dropped ll (drop (length vd) fl)"
    using pl by (simp add: placement_None [symmetric])
  show "m \<in> ?R"
    using n u nd b by (auto simp: m look relpath_under [OF u])
next
  fix m assume "m \<in> ?R"
  then obtain p c where m: "m = (drop (length vd) p, RegFile c)"
    and n: "(p, RegFile c) \<in> set f" and u: "strict_prefix vd p"
    and nd: "\<not> dropped ll (drop (length vd) p)"
    by blast
  have "placement ll (drop (length vd) p) \<noteq> Inl IndexError"
    using partition_files_placed [OF assms(2) n u] by simp
  then obtain k where pl: "placement ll (drop (length vd) p) = Inr (Some k)"
    using nd by (auto simp: placement_def dropped_def split: if_splits)
  have "holders colls p = [k]"
    using holders_placed [OF assms(2) n u _ pl] by simp
  then have "filter (\<lambda>c. p \<in> set (snd c)) colls \<noteq> []"
    by (auto simp: holders_def)
  then obtain col where col: "col \<in> set colls" and inn: "p \<in> set (snd col)"
    by (auto simp: filter_empty_conv)
  have look: "map_of f p = Some (RegFile c)"
    using assms(1) n by simp
  have "(relpath p vd, the (map_of f p)) \<in> set (members_of f vd (snd col))"
    using inn by (auto simp: members_of_def)
  then show "m \<in> ?L"
    using col by (auto simp: m look relpath_under [OF u])
qed

subsection \<open>The uploads and the whole call\<close>

lemma push_reaches_upload:
  assumes "by_name E (pdk_family a) = Some fam" and "github_token E = Some token"
    and "isdir (fs E) (version_directory_of E a)"
    and "partition_files (fs E) (version_directory_of E a)
           (library_list_of fam (push_libraries a)) = Inr colls"
  shows "push E a =
           upload_loop (ghr E) (upload_argv E a fam token) (staged E a colls)
             (map (\<lambda>c. tarball_of (tarball_directory_of E a) (fst c)) colls)"
proof -
  have e: "archives (mkdirp (tarball_directory_of E a) initial) = []"
    by (simp add: mkdirp_def initial_def)
  note run = compress_after_partition [OF assms(4) e, of "tarball_directory_of E a"]
  have st: "staged E a colls =
      (mkdirp (tarball_directory_of E a) initial)
        \<lparr>archives := map (\<lambda>c. (tarball_of (tarball_directory_of E a) (fst c),
            members_of (fs E) (version_directory_of E a) (snd c))) colls\<rparr>"
    by (simp add: staged_def run)
  show ?thesis
    unfolding st
    using assms run
    by (simp add: push_def Let_def library_list_of_def version_directory_of_def
          tarball_directory_of_def release_body_def upload_argv_def)
qed

lemma upload_loop_append:
  "upload_loop run av s (xs @ ys) =
     (case upload_loop run av s xs of
        (s', Inl e) \<Rightarrow> (s', Inl e)
      | (s', Inr u) \<Rightarrow> upload_loop run av s' ys)"
proof (induction xs arbitrary: s)
  case Nil
  then show ?case by simp
next
  case (Cons x xs)
  then show ?case by (simp split: prod.splits sum.splits)
qed

lemma check_call_ok:
  assumes "check_call run s argv = (s', Inr u)"
  shows "s' = s\<lparr>ghr_calls := ghr_calls s @ [(argv, 0)]\<rparr>"
  using assms by (auto simp: check_call_def split: proc_result.splits if_splits)

lemma check_call_failed:
  assumes "check_call run s argv = (s', Inl e)"
  shows "(s' = s \<and> (\<exists>msg. e = OSError msg)) \<or>
         (\<exists>rc. rc \<noteq> 0 \<and> s' = s\<lparr>ghr_calls := ghr_calls s @ [(argv, rc)]\<rparr> \<and>
               e = CalledProcessError rc argv)"
  using assms by (auto simp: check_call_def split: proc_result.splits if_splits)

lemma upload_loop_ok:
  assumes "upload_loop run av s xs = (s', Inr u)"
  shows "s' = s\<lparr>ghr_calls := ghr_calls s @ map (\<lambda>x. (av x, 0)) xs\<rparr>"
  using assms
proof (induction xs arbitrary: s)
  case Nil
  then show ?case by simp
next
  case (Cons x xs)
  from Cons.prems obtain s1 u1 where
    c: "check_call run s (av x) = (s1, Inr u1)" and r: "upload_loop run av s1 xs = (s', Inr u)"
    by (auto split: prod.splits sum.splits)
  show ?case
    using Cons.IH [OF r] check_call_ok [OF c] by simp
qed

lemma staged_calls:
  assumes "partition_files (fs E) (version_directory_of E a) ll = Inr colls"
  shows "ghr_calls (staged E a colls) = []"
proof -
  have e: "archives (mkdirp (tarball_directory_of E a) initial) = []"
    by (simp add: mkdirp_def initial_def)
  show ?thesis
    unfolding staged_def compress_after_partition [OF assms e, of "tarball_directory_of E a"]
    by (simp add: mkdirp_def initial_def)
qed

lemma example_partition_all:
  "partition_files example_tree example_dir [''lib1'', ''lib2''] =
     Inr [(''common'', [example_dir @ [''v'', ''a.txt'']]),
          (''lib1'', [example_dir @ [''v'', ''libs.ref'', ''lib1'', ''x.lef'']]),
          (''lib2'', [example_dir @ [''v'', ''libs.ref'', ''lib2'', ''y.lef'']])]"
  by (simp add: partition_eval example_defs)

lemma ghr_argv_tag:
  "last (butlast (ghr_argv ow rp token body p tag tarball_path)) = tag"
  "last (ghr_argv ow rp token body p tag tarball_path) = path_str tarball_path"
  by (simp_all add: ghr_argv_def butlast_append)

lemma upload_loop_trace:
  assumes "upload_loop run av s xs = (s', r)"
  shows "archives s' = archives s \<and>
         (\<exists>k. map fst (ghr_calls s') = map fst (ghr_calls s) @ map av (take k xs))"
  using assms
proof (induction xs arbitrary: s)
  case Nil
  then show ?case by simp
next
  case (Cons x xs)
  obtain s1 r1 where c: "check_call run s (av x) = (s1, r1)" by (cases "check_call run s (av x)")
  show ?case
  proof (cases r1)
    case (Inl e)
    then have s': "s' = s1" using Cons.prems c by simp
    from check_call_failed [OF c [unfolded Inl]]
    have "s1 = s \<or> (\<exists>rc. s1 = s\<lparr>ghr_calls := ghr_calls s @ [(av x, rc)]\<rparr>)" by blast
    then show ?thesis
    proof
      assume "s1 = s"
      then have "map fst (ghr_calls s') = map fst (ghr_calls s) @ map av (take 0 (x # xs))"
        by (simp add: s')
      then show ?thesis using \<open>s1 = s\<close> s' by blast
    next
      assume "\<exists>rc. s1 = s\<lparr>ghr_calls := ghr_calls s @ [(av x, rc)]\<rparr>"
      then obtain rc where s1: "s1 = s\<lparr>ghr_calls := ghr_calls s @ [(av x, rc)]\<rparr>" by blast
      have "map fst (ghr_calls s') = map fst (ghr_calls s) @ map av (take 1 (x # xs))"
        by (simp add: s' s1)
      moreover have "archives s' = archives s" by (simp add: s' s1)
      ultimately show ?thesis by blast
    qed
  next
    case (Inr u)
    then have rest: "upload_loop run av s1 xs = (s', r)" using Cons.prems c by simp
    have s1: "s1 = s\<lparr>ghr_calls := ghr_calls s @ [(av x, 0)]\<rparr>"
      by (rule check_call_ok [OF c [unfolded Inr]])
    from Cons.IH [OF rest] obtain k where
      a: "archives s' = archives s1" and
      k: "map fst (ghr_calls s') = map fst (ghr_calls s1) @ map av (take k xs)"
      by blast
    have "map fst (ghr_calls s') = map fst (ghr_calls s) @ map av (take (Suc k) (x # xs))"
      using k by (simp add: s1)
    moreover have "archives s' = archives s" using a by (simp add: s1)
    ultimately show ?thesis by blast
  qed
qed

lemma example_push:
  "push (example_env example_registry (Some ''t'') example_tree ghr_ok) (example_args (Some [''lib1''])) =
    (\<lparr>dirs_made = [[''tmp'', ''ciel'', ''u'', ''v1'']],
      archives =
        [([''tmp'', ''ciel'', ''u'', ''v1'', ''common.tar.zst''], [([''v'', ''a.txt''], RegFile ''A'')]),
         ([''tmp'', ''ciel'', ''u'', ''v1'', ''lib1.tar.zst''],
          [([''v'', ''libs.ref'', ''lib1'', ''x.lef''], RegFile ''X'')])],
      ghr_calls =
        [([''ghr'', ''-owner'', ''o'', ''-repository'', ''r'', ''-token'', ''t'', ''-body'',
           ''sky130 variants built using ciel'', ''-commitish'', ''releases'', ''-replace'',
           ''sky130-v1'', ''/tmp/ciel/u/v1/common.tar.zst''], 0),
         ([''ghr'', ''-owner'', ''o'', ''-repository'', ''r'', ''-token'', ''t'', ''-body'',
           ''sky130 variants built using ciel'', ''-commitish'', ''releases'', ''-replace'',
           ''sky130-v1'', ''/tmp/ciel/u/v1/lib1.tar.zst''], 0)]\<rparr>,
     Inr ())"
  by (simp add: push_def example_defs isdir_def mkdirp_def initial_def partition_eval
        tar_add_def Let_def check_call_def ghr_argv_def path_str_def)

lemma staged_eq:
  assumes "partition_files (fs E) (version_directory_of E a) ll = Inr colls"
  shows "staged E a colls =
      (mkdirp (tarball_directory_of E a) initial)
        \<lparr>archives := map (\<lambda>c. (tarball_of (tarball_directory_of E a) (fst c),
            members_of (fs E) (version_directory_of E a) (snd c))) colls\<rparr>"
proof -
  have e: "archives (mkdirp (tarball_directory_of E a) initial) = []"
    by (simp add: mkdirp_def initial_def)
  show ?thesis
    unfolding staged_def compress_after_partition [OF assms e, of "tarball_directory_of E a"]
    by simp
qed

lemma push_partition_error:
  assumes "by_name E (pdk_family a) = Some fam" and "github_token E = Some token"
    and "isdir (fs E) (version_directory_of E a)"
    and "partition_files (fs E) (version_directory_of E a)
           (library_list_of fam (push_libraries a)) = Inl err"
  shows "push E a = (mkdirp (tarball_directory_of E a) initial, Inl err)"
  using assms
  by (simp add: push_def Let_def library_list_of_def version_directory_of_def
        tarball_directory_of_def)

section \<open>The claims\<close>

subsection \<open>Files that make the partition fail\<close>

text \<open>
  Claim C4. The loop reads the second component of every regular file's relative path,
  and the third one after the library marker, without looking at the length first. So
  when the call reaches the partition (registered family, a token, an existing version
  directory) and the version directory holds a regular file directly at its top level, or
  a regular file with exactly two components whose second one is \<open>libs.ref\<close>, \<open>push\<close>
  raises \<open>IndexError\<close>: only the output directory has been made, no archive is written
  and nothing is uploaded.
\<close>

theorem push_index_error:
  assumes "by_name E (pdk_family a) = Some fam" and "github_token E = Some token"
    and "isdir (fs E) (version_directory_of E a)"
    and "(version_directory_of E a @ [name], RegFile c) \<in> set (fs E)
         \<or> (version_directory_of E a @ [d, ''libs.ref''], RegFile c) \<in> set (fs E)"
  shows "push E a = (mkdirp (tarball_directory_of E a) initial, Inl IndexError)"
proof -
  let ?vd = "version_directory_of E a"
  have "partition_files (fs E) ?vd (library_list_of fam (push_libraries a)) = Inl IndexError"
  proof (rule disjE [OF assms(4)])
    assume "(?vd @ [name], RegFile c) \<in> set (fs E)"
    then show ?thesis
      by (rule partition_files_misplaced) (simp_all add: placement_def strict_prefix_def)
  next
    assume "(?vd @ [d, ''libs.ref''], RegFile c) \<in> set (fs E)"
    then show ?thesis
      by (rule partition_files_misplaced) (simp_all add: placement_def strict_prefix_def)
  qed
  then show ?thesis
    by (rule push_partition_error [OF assms(1) assms(2) assms(3)])
qed

theorem push_index_error_witness:
  "push (example_env example_registry (Some ''t'') flat_tree ghr_ok) (example_args None)
     = (\<lparr>dirs_made = [[''tmp'', ''ciel'', ''u'', ''v1'']], archives = [], ghr_calls = []\<rparr>,
        Inl IndexError)"
  using push_index_error [of "example_env example_registry (Some ''t'') flat_tree ghr_ok"
      "example_args None" example_family "''t''" "''a.txt''" "''A''" "''v''"]
  by (simp add: example_defs isdir_def mkdirp_def initial_def version_directory_of_def
        tarball_directory_of_def)

subsection \<open>The credential is checked first\<close>



subsection \<open>How many collections hold a file\<close>

text \<open>
  Claim C1, as amended. Whenever the partition completes, a regular file below the version
  directory is held by at most one collection. It is held by none when the second
  component of its relative path is \<open>libs.ref\<close> and the third is a library outside the
  allow-list (the loop skips such a file), and otherwise by exactly one: the library named
  by the third component after \<open>libs.ref\<close>, or \<open>common\<close>.
\<close>

theorem partition_at_most_one:
  assumes "partition_files f vd ll = Inr colls"
    and "(p, RegFile c) \<in> set f" and "strict_prefix vd p"
  shows "holders colls p =
           (if dropped ll (drop (length vd) p) then []
            else [if drop (length vd) p ! 1 = ''libs.ref'' then drop (length vd) p ! 2
                  else ''common''])"
proof (cases "dropped ll (drop (length vd) p)")
  case True
  then show ?thesis
    using holders_dropped [OF assms(1) assms(2) assms(3)] by simp
next
  case False
  let ?rel = "drop (length vd) p"
  have "placement ll ?rel \<noteq> Inl IndexError"
    using partition_files_placed [OF assms(1) assms(2) assms(3)] by simp
  then have "placement ll ?rel = Inr (Some (if ?rel ! 1 = ''libs.ref'' then ?rel ! 2 else ''common''))"
    using False by (auto simp: placement_def dropped_def split: if_splits)
  then show ?thesis
    using False holders_placed [OF assms(1) assms(2) assms(3)] by simp
qed

theorem partition_at_most_one_witness:
  "partition_files example_tree example_dir [''lib1''] =
     Inr [(''common'', [example_dir @ [''v'', ''a.txt'']]),
          (''lib1'', [example_dir @ [''v'', ''libs.ref'', ''lib1'', ''x.lef'']])] \<and>
   (example_dir @ [''v'', ''libs.ref'', ''lib1'', ''x.lef''], RegFile ''X'') \<in> set example_tree \<and>
   strict_prefix example_dir (example_dir @ [''v'', ''libs.ref'', ''lib1'', ''x.lef'']) \<and>
   holders [(''common'', [example_dir @ [''v'', ''a.txt'']]),
            (''lib1'', [example_dir @ [''v'', ''libs.ref'', ''lib1'', ''x.lef'']])]
     (example_dir @ [''v'', ''libs.ref'', ''lib1'', ''x.lef'']) = [''lib1'']"
proof -
  have h2: "(example_dir @ [''v'', ''libs.ref'', ''lib1'', ''x.lef''], RegFile ''X'')
              \<in> set example_tree"
    by (simp add: example_tree_def)
  have h3: "strict_prefix example_dir (example_dir @ [''v'', ''libs.ref'', ''lib1'', ''x.lef''])"
    by (simp add: strict_prefix_def)
  show ?thesis
    using partition_at_most_one [OF example_partition h2 h3] example_partition h2 h3
    by (simp add: dropped_def)
qed

text \<open>
  Claim C1 as stated fails: with the allow-list \<open>{lib1}\<close> the regular file
  \<open>v/libs.ref/lib2/y.lef\<close> of the example is in no collection.
\<close>

theorem partition_drops_file:
  "(example_dir @ [''v'', ''libs.ref'', ''lib2'', ''y.lef''], RegFile ''Y'') \<in> set example_tree \<and>
   partition_files example_tree example_dir [''lib1''] =
     Inr [(''common'', [example_dir @ [''v'', ''a.txt'']]),
          (''lib1'', [example_dir @ [''v'', ''libs.ref'', ''lib1'', ''x.lef'']])] \<and>
   holders [(''common'', [example_dir @ [''v'', ''a.txt'']]),
            (''lib1'', [example_dir @ [''v'', ''libs.ref'', ''lib1'', ''x.lef'']])]
     (example_dir @ [''v'', ''libs.ref'', ''lib2'', ''y.lef'']) = []"
  by (simp add: example_partition holders_def) (simp add: example_tree_def)

subsection \<open>Files of a library outside the allow-list\<close>

text \<open>
  Claim C2, as amended. Whenever the partition completes, a regular file whose relative
  path has \<open>libs.ref\<close> as its second component and, as its third, a library that is not in
  the allow-list is in no collection: the loop skips it, it is not appended to
  \<open>common\<close>. For the tree \<open>{v/a.txt, v/libs.ref/lib1/x.lef, v/libs.ref/lib2/y.lef}\<close> and
  the allow-list \<open>{lib1}\<close> the result is
  \<open>{common: [v/a.txt], lib1: [v/libs.ref/lib1/x.lef]}\<close>.
\<close>

theorem excluded_library_skipped:
  "(partition_files f vd ll = Inr colls \<and> (p, RegFile c) \<in> set f \<and> strict_prefix vd p \<and>
    dropped ll (drop (length vd) p) \<longrightarrow>
      p \<notin> set (files_of colls ''common'') \<and> (\<forall>(name, files) \<in> set colls. p \<notin> set files)) \<and>
   partition_files example_tree example_dir [''lib1''] =
     Inr [(''common'', [example_dir @ [''v'', ''a.txt'']]),
          (''lib1'', [example_dir @ [''v'', ''libs.ref'', ''lib1'', ''x.lef'']])]"
proof (intro conjI impI)
  assume a: "partition_files f vd ll = Inr colls \<and> (p, RegFile c) \<in> set f \<and>
    strict_prefix vd p \<and> dropped ll (drop (length vd) p)"
  show all: "\<forall>(name, files) \<in> set colls. p \<notin> set files"
    using a not_held_when_dropped [of f vd ll colls p "RegFile c"] by auto
  show "p \<notin> set (files_of colls ''common'')"
  proof (cases "map_of colls ''common''")
    case None
    then show ?thesis by (simp add: files_of_def)
  next
    case (Some files)
    then have "(''common'', files) \<in> set colls" by (rule map_of_SomeD)
    then show ?thesis using all Some by (auto simp: files_of_def)
  qed
next
  show "partition_files example_tree example_dir [''lib1''] =
     Inr [(''common'', [example_dir @ [''v'', ''a.txt'']]),
          (''lib1'', [example_dir @ [''v'', ''libs.ref'', ''lib1'', ''x.lef'']])]"
    by (rule example_partition)
qed

theorem excluded_library_skipped_witness:
  "partition_files example_tree example_dir [''lib1''] =
     Inr [(''common'', [example_dir @ [''v'', ''a.txt'']]),
          (''lib1'', [example_dir @ [''v'', ''libs.ref'', ''lib1'', ''x.lef'']])] \<and>
   (example_dir @ [''v'', ''libs.ref'', ''lib2'', ''y.lef''], RegFile ''Y'') \<in> set example_tree \<and>
   strict_prefix example_dir (example_dir @ [''v'', ''libs.ref'', ''lib2'', ''y.lef'']) \<and>
   dropped [''lib1'']
     (drop (length example_dir) (example_dir @ [''v'', ''libs.ref'', ''lib2'', ''y.lef''])) \<and>
   example_dir @ [''v'', ''libs.ref'', ''lib2'', ''y.lef''] \<notin>
     set (files_of [(''common'', [example_dir @ [''v'', ''a.txt'']]),
                    (''lib1'', [example_dir @ [''v'', ''libs.ref'', ''lib1'', ''x.lef'']])]
            ''common'')"
proof -
  let ?y = "example_dir @ [''v'', ''libs.ref'', ''lib2'', ''y.lef'']"
  have h2: "(?y, RegFile ''Y'') \<in> set example_tree"
    by (simp add: example_tree_def)
  have h3: "strict_prefix example_dir ?y"
    by (simp add: strict_prefix_def)
  have h4: "dropped [''lib1''] (drop (length example_dir) ?y)"
    by (simp add: dropped_def)
  show ?thesis
    using excluded_library_skipped [of example_tree example_dir "[''lib1'']"
        "[(''common'', [example_dir @ [''v'', ''a.txt'']]),
          (''lib1'', [example_dir @ [''v'', ''libs.ref'', ''lib1'', ''x.lef'']])]"
        ?y "''Y''"]
      example_partition h2 h3 h4
    by blast
qed

text \<open>
  Claim C2 as stated fails twice. On the tree of the claim, whose files lie directly below
  the version directory, the partition raises \<open>IndexError\<close> and gives no result; and in
  the layout the code expects, \<open>v/libs.ref/lib2/y.lef\<close> with the allow-list \<open>{lib1}\<close> is
  absent from \<open>common\<close>.
\<close>

theorem excluded_library_not_in_common:
  "partition_files flat_tree example_dir [''lib1''] = Inl IndexError \<and>
   (case partition_files example_tree example_dir [''lib1''] of
      Inl err \<Rightarrow> False
    | Inr colls \<Rightarrow>
        example_dir @ [''v'', ''libs.ref'', ''lib2'', ''y.lef''] \<notin> set (files_of colls ''common''))"
  by (simp add: flat_partition example_partition files_of_def)

subsection \<open>Names and order of the archive members\<close>

text \<open>
  Claim C7. For every collection of a completed partition the archive loop writes the
  file \<open>name.tar.zst\<close> in the output directory, and its members are the files of the
  collection in their stored order, each under its path relative to the version directory:
  the version directory followed by the member name is the file's path, and the name is
  not empty.
\<close>

theorem archive_member_names:
  assumes "partition_files f vd ll = Inr colls" and "archives s = []"
    and "(name, files) \<in> set colls"
  shows "\<exists>s' tarballs members.
           compress_loop f vd td s [] colls = (s', Inr tarballs) \<and>
           map_of (archives s') (td @ [name @ ''.tar.zst'']) = Some members \<and>
           map fst members = map (\<lambda>fl. drop (length vd) fl) files \<and>
           map (\<lambda>m. vd @ fst m) members = files \<and>
           [] \<notin> set (map fst members)"
proof -
  let ?new = "map (\<lambda>c. (tarball_of td (fst c), members_of f vd (snd c))) colls"
  have run: "compress_loop f vd td s [] colls =
               (s\<lparr>archives := ?new\<rparr>, Inr (map (\<lambda>c. tarball_of td (fst c)) colls))"
    by (rule compress_after_partition [OF assms(1) assms(2)])
  have "distinct (map fst colls)" by (rule partition_files_char(1) [OF assms(1)])
  then have d: "distinct (map fst ?new)"
    by (simp add: comp_def distinct_map inj_on_def tarball_of_inj)
  have "(tarball_of td name, members_of f vd files) \<in> set ?new"
    using assms(3) by force
  then have look: "map_of ?new (tarball_of td name) = Some (members_of f vd files)"
    using d by (rule map_of_is_SomeI [rotated])
  have names: "map fst (members_of f vd files) = map (\<lambda>fl. drop (length vd) fl) files"
    using members_names [OF assms(1) assms(3)] by simp
  have under: "\<And>fl. fl \<in> set files \<Longrightarrow> strict_prefix vd fl"
    using collected_present [OF assms(1) assms(3)] by auto
  have again: "map (\<lambda>m. vd @ fst m) (members_of f vd files) = files"
  proof -
    have "map (\<lambda>m. vd @ fst m) (members_of f vd files) = map (\<lambda>n. vd @ n) (map fst (members_of f vd files))"
      by (simp add: comp_def)
    also have "\<dots> = map (\<lambda>fl. vd @ drop (length vd) fl) files"
      unfolding names by (simp add: comp_def)
    also have "\<dots> = map (\<lambda>fl. fl) files"
      by (rule map_cong [OF refl]) (simp add: strict_prefix_split(1) [OF under])
    finally show ?thesis by simp
  qed
  have nonempty: "[] \<notin> set (map fst (members_of f vd files))"
    unfolding names using strict_prefix_split(2) [OF under] by auto
  show ?thesis
  proof (intro exI conjI)
    show "compress_loop f vd td s [] colls =
            (s\<lparr>archives := ?new\<rparr>, Inr (map (\<lambda>c. tarball_of td (fst c)) colls))"
      by (rule run)
    show "map_of (archives (s\<lparr>archives := ?new\<rparr>)) (td @ [name @ ''.tar.zst'']) =
            Some (members_of f vd files)"
      using look by (simp add: tarball_of_def)
    show "map fst (members_of f vd files) = map (\<lambda>fl. drop (length vd) fl) files"
      by (rule names)
    show "map (\<lambda>m. vd @ fst m) (members_of f vd files) = files"
      by (rule again)
    show "[] \<notin> set (map fst (members_of f vd files))"
      by (rule nonempty)
  qed
qed

theorem archive_member_names_witness:
  "map fst (the (map_of
      (archives (fst (compress_loop example_tree example_dir [''tmp''] initial []
         [(''common'', [example_dir @ [''v'', ''a.txt'']]),
          (''lib1'', [example_dir @ [''v'', ''libs.ref'', ''lib1'', ''x.lef'']])])))
      ([''tmp''] @ [''lib1'' @ ''.tar.zst'']))) = [[''v'', ''libs.ref'', ''lib1'', ''x.lef'']]"
proof -
  have h2: "archives initial = []" by (simp add: initial_def)
  have h3: "(''lib1'', [example_dir @ [''v'', ''libs.ref'', ''lib1'', ''x.lef'']]) \<in>
     set [(''common'', [example_dir @ [''v'', ''a.txt'']]),
          (''lib1'', [example_dir @ [''v'', ''libs.ref'', ''lib1'', ''x.lef'']])]"
    by simp
  from archive_member_names [OF example_partition h2 h3, of "[''tmp'']"]
  obtain s' tarballs members where
    run: "compress_loop example_tree example_dir [''tmp''] initial []
         [(''common'', [example_dir @ [''v'', ''a.txt'']]),
          (''lib1'', [example_dir @ [''v'', ''libs.ref'', ''lib1'', ''x.lef'']])] = (s', Inr tarballs)"
    and look: "map_of (archives s') ([''tmp''] @ [''lib1'' @ ''.tar.zst'']) = Some members"
    and names: "map fst members = map (\<lambda>fl. drop (length example_dir) fl)
                  [example_dir @ [''v'', ''libs.ref'', ''lib1'', ''x.lef'']]"
    by blast
  show ?thesis
    unfolding run using look names by simp
qed

subsection \<open>The collection \<open>common\<close>\<close>

text \<open>
  Claim C8 says that for every version directory tree the collection \<open>common\<close> is in the
  partition result and a \<open>common\<close> archive is produced. The code initialises the
  dictionary with \<open>common\<close> and archives every collection, but its loop body reads the
  second path component without looking at the length. On the tree
  \<open>{a.txt, libs.ref/lib1/x.lef, libs.ref/lib2/y.lef}\<close>, whose files lie directly below the
  version directory, the partition therefore raises \<open>IndexError\<close>: there is no partition
  result, and \<open>push\<close> ends with the output directory made and no archive written, so
  without \<open>common.tar.zst\<close>.
\<close>

theorem common_archive_missing:
  "partition_files flat_tree example_dir [''lib1''] = Inl IndexError \<and>
   push (example_env example_registry (Some ''t'') flat_tree ghr_ok)
        (example_args (Some [''lib1''])) =
     (\<lparr>dirs_made = [[''tmp'', ''ciel'', ''u'', ''v1'']], archives = [], ghr_calls = []\<rparr>,
      Inl IndexError)"
proof (intro conjI)
  show "partition_files flat_tree example_dir [''lib1''] = Inl IndexError"
    by (rule flat_partition)
  let ?E = "example_env example_registry (Some ''t'') flat_tree ghr_ok"
  let ?a = "example_args (Some [''lib1''])"
  have h1: "by_name ?E (pdk_family ?a) = Some example_family"
    by (simp add: example_env_def example_args_def example_registry_def)
  have h2: "github_token ?E = Some ''t''"
    by (simp add: example_env_def)
  have vd: "version_directory_of ?E ?a = example_dir"
    by (simp add: version_directory_of_def example_env_def example_args_def example_dir_def)
  have h3: "isdir (fs ?E) (version_directory_of ?E ?a)"
    unfolding vd by (simp add: isdir_def example_env_def flat_tree_def)
  have h4: "partition_files (fs ?E) (version_directory_of ?E ?a)
              (library_list_of example_family (push_libraries ?a)) = Inl IndexError"
    unfolding vd using flat_partition
    by (simp add: example_env_def example_args_def library_list_of_def)
  show "push ?E ?a =
     (\<lparr>dirs_made = [[''tmp'', ''ciel'', ''u'', ''v1'']], archives = [], ghr_calls = []\<rparr>,
      Inl IndexError)"
    using push_partition_error [OF h1 h2 h3 h4]
    by (simp add: mkdirp_def initial_def tarball_directory_of_def example_env_def
          example_args_def)
qed

subsection \<open>What the archives hold together\<close>

text \<open>
  Claim C3, as amended. Whenever the partition completes, the archive loop completes too,
  and the members of all the archives it writes, taken together, are exactly the regular
  files below the version directory, each under its path relative to the version
  directory and with its content, except the files whose relative path has \<open>libs.ref\<close>
  as second component and a library outside the allow-list as third: those are in no
  archive.
\<close>

theorem archives_hold_kept_files:
  assumes "distinct (map fst f)" and "partition_files f vd ll = Inr colls"
    and "archives s = []"
  shows "\<exists>s' tarballs.
           compress_loop f vd td s [] colls = (s', Inr tarballs) \<and>
           set (extract_all s') =
             {(drop (length vd) p, RegFile c) | p c.
                (p, RegFile c) \<in> set f \<and> strict_prefix vd p \<and>
                \<not> dropped ll (drop (length vd) p)}"
proof (intro exI conjI)
  let ?new = "map (\<lambda>c. (tarball_of td (fst c), members_of f vd (snd c))) colls"
  show "compress_loop f vd td s [] colls =
          (s\<lparr>archives := ?new\<rparr>, Inr (map (\<lambda>c. tarball_of td (fst c)) colls))"
    by (rule compress_after_partition [OF assms(2) assms(3)])
  have "set (extract_all (s\<lparr>archives := ?new\<rparr>)) =
          (\<Union>c \<in> set colls. set (members_of f vd (snd c)))"
    by (simp add: extract_all_def comp_def)
  then show "set (extract_all (s\<lparr>archives := ?new\<rparr>)) =
          {(drop (length vd) p, RegFile c) | p c.
             (p, RegFile c) \<in> set f \<and> strict_prefix vd p \<and> \<not> dropped ll (drop (length vd) p)}"
    using extracted_members [OF assms(1) assms(2)] by simp
qed

theorem archives_hold_kept_files_witness:
  "([''v'', ''libs.ref'', ''lib1'', ''x.lef''], RegFile ''X'') \<in>
     set (extract_all (fst (compress_loop example_tree example_dir [''tmp''] initial []
       [(''common'', [example_dir @ [''v'', ''a.txt'']]),
        (''lib1'', [example_dir @ [''v'', ''libs.ref'', ''lib1'', ''x.lef'']])])))"
proof -
  have h1: "distinct (map fst example_tree)"
    by (simp add: example_tree_def example_dir_def)
  have h3: "archives initial = []" by (simp add: initial_def)
  from archives_hold_kept_files [OF h1 example_partition h3, of "[''tmp'']"]
  obtain s' tarballs where
    run: "compress_loop example_tree example_dir [''tmp''] initial []
       [(''common'', [example_dir @ [''v'', ''a.txt'']]),
        (''lib1'', [example_dir @ [''v'', ''libs.ref'', ''lib1'', ''x.lef'']])] = (s', Inr tarballs)"
    and all: "set (extract_all s') =
      {(drop (length example_dir) p, RegFile c) | p c.
         (p, RegFile c) \<in> set example_tree \<and> strict_prefix example_dir p \<and>
         \<not> dropped [''lib1''] (drop (length example_dir) p)}"
    by blast
  have "(example_dir @ [''v'', ''libs.ref'', ''lib1'', ''x.lef''], RegFile ''X'') \<in> set example_tree
      \<and> strict_prefix example_dir (example_dir @ [''v'', ''libs.ref'', ''lib1'', ''x.lef''])
      \<and> \<not> dropped [''lib1'']
            (drop (length example_dir) (example_dir @ [''v'', ''libs.ref'', ''lib1'', ''x.lef'']))"
    by (simp add: example_tree_def strict_prefix_def dropped_def)
  then have "(drop (length example_dir) (example_dir @ [''v'', ''libs.ref'', ''lib1'', ''x.lef'']),
              RegFile ''X'') \<in> set (extract_all s')"
    unfolding all by blast
  then show ?thesis
    unfolding run by simp
qed

text \<open>
  Claim C3 as stated fails: with the allow-list \<open>{lib1}\<close> the archives of the example
  hold \<open>v/a.txt\<close> and \<open>v/libs.ref/lib1/x.lef\<close> only, so extracting them does not bring
  back the regular file \<open>v/libs.ref/lib2/y.lef\<close>.
\<close>

theorem archives_miss_excluded_library:
  "(example_dir @ [''v'', ''libs.ref'', ''lib2'', ''y.lef''], RegFile ''Y'') \<in> set example_tree \<and>
   partition_files example_tree example_dir [''lib1''] =
     Inr [(''common'', [example_dir @ [''v'', ''a.txt'']]),
          (''lib1'', [example_dir @ [''v'', ''libs.ref'', ''lib1'', ''x.lef'']])] \<and>
   extract_all (fst (compress_loop example_tree example_dir [''tmp''] initial []
       [(''common'', [example_dir @ [''v'', ''a.txt'']]),
        (''lib1'', [example_dir @ [''v'', ''libs.ref'', ''lib1'', ''x.lef'']])])) =
     [([''v'', ''a.txt''], RegFile ''A''),
      ([''v'', ''libs.ref'', ''lib1'', ''x.lef''], RegFile ''X'')]"
proof (intro conjI)
  show "(example_dir @ [''v'', ''libs.ref'', ''lib2'', ''y.lef''], RegFile ''Y'') \<in> set example_tree"
    by (simp add: example_tree_def)
  show "partition_files example_tree example_dir [''lib1''] =
     Inr [(''common'', [example_dir @ [''v'', ''a.txt'']]),
          (''lib1'', [example_dir @ [''v'', ''libs.ref'', ''lib1'', ''x.lef'']])]"
    by (rule example_partition)
  show "extract_all (fst (compress_loop example_tree example_dir [''tmp''] initial []
       [(''common'', [example_dir @ [''v'', ''a.txt'']]),
        (''lib1'', [example_dir @ [''v'', ''libs.ref'', ''lib1'', ''x.lef'']])])) =
     [([''v'', ''a.txt''], RegFile ''A''),
      ([''v'', ''libs.ref'', ''lib1'', ''x.lef''], RegFile ''X'')]"
    unfolding example_compress by (simp add: extract_all_def)
qed

subsection \<open>A failed upload\<close>

text \<open>
  Claim C6. Take a call that reaches the uploads, and split the archives, in the order
  they were written, into those sent so far, the next one and the rest. If the uploads of
  the first ones succeeded and the upload of the next one fails (\<open>ghr\<close> cannot be started
  or exits with a status other than zero), then \<open>push\<close> raises that error. The calls made
  are the successful ones, each with exit status zero, followed at most by the failed one:
  nothing is uploaded for the rest and nothing is undone, and the archives stay on disk.
\<close>

theorem failed_upload_aborts:
  assumes "by_name E (pdk_family a) = Some fam" and "github_token E = Some token"
    and "isdir (fs E) (version_directory_of E a)"
    and "partition_files (fs E) (version_directory_of E a)
           (library_list_of fam (push_libraries a)) = Inr colls"
    and "map (\<lambda>c. tarball_of (tarball_directory_of E a) (fst c)) colls = sent @ t # rest"
    and "upload_loop (ghr E) (upload_argv E a fam token) (staged E a colls) sent = (s3, Inr u)"
    and "check_call (ghr E) s3 (upload_argv E a fam token t) = (s4, Inl err)"
  shows "push E a = (s4, Inl err) \<and>
         ghr_calls s3 = map (\<lambda>x. (upload_argv E a fam token x, 0)) sent \<and>
         ((ghr_calls s4 = ghr_calls s3 \<and> (\<exists>msg. err = OSError msg)) \<or>
          (\<exists>rc. rc \<noteq> 0 \<and> ghr_calls s4 = ghr_calls s3 @ [(upload_argv E a fam token t, rc)] \<and>
                err = CalledProcessError rc (upload_argv E a fam token t))) \<and>
         archives s4 = archives (staged E a colls)"
proof -
  have e: "archives (mkdirp (tarball_directory_of E a) initial) = []"
    by (simp add: mkdirp_def initial_def)
  have st: "ghr_calls (staged E a colls) = []"
    unfolding staged_def
      compress_after_partition [OF assms(4) e, of "tarball_directory_of E a"]
    by (simp add: mkdirp_def initial_def)
  have s3: "s3 = (staged E a colls)
              \<lparr>ghr_calls := ghr_calls (staged E a colls)
                 @ map (\<lambda>x. (upload_argv E a fam token x, 0)) sent\<rparr>"
    by (rule upload_loop_ok [OF assms(6)])
  have "push E a =
          upload_loop (ghr E) (upload_argv E a fam token) (staged E a colls) (sent @ t # rest)"
    using push_reaches_upload [OF assms(1-4)] assms(5) by simp
  also have "\<dots> = upload_loop (ghr E) (upload_argv E a fam token) s3 (t # rest)"
    by (simp add: upload_loop_append assms(6))
  also have "\<dots> = (s4, Inl err)"
    by (simp add: assms(7))
  finally have p: "push E a = (s4, Inl err)" .
  have c3: "ghr_calls s3 = map (\<lambda>x. (upload_argv E a fam token x, 0)) sent"
    using s3 st by simp
  have a3: "archives s3 = archives (staged E a colls)"
    using s3 by simp
  from check_call_failed [OF assms(7)]
  have f: "((ghr_calls s4 = ghr_calls s3 \<and> (\<exists>msg. err = OSError msg)) \<or>
          (\<exists>rc. rc \<noteq> 0 \<and> ghr_calls s4 = ghr_calls s3 @ [(upload_argv E a fam token t, rc)] \<and>
                err = CalledProcessError rc (upload_argv E a fam token t)))
          \<and> archives s4 = archives s3"
    by auto
  show ?thesis
    using p c3 f a3 by simp
qed

theorem failed_upload_aborts_witness:
  "snd (push (example_env example_registry (Some ''t'') example_tree ghr_fails_second)
          (example_args None)) =
     Inl (CalledProcessError 1
            (upload_argv (example_env example_registry (Some ''t'') example_tree ghr_fails_second)
               (example_args None) example_family ''t''
               [''tmp'', ''ciel'', ''u'', ''v1'', ''lib1.tar.zst''])) \<and>
   map snd (ghr_calls (fst (push
       (example_env example_registry (Some ''t'') example_tree ghr_fails_second)
       (example_args None)))) = [0, 1]"
proof -
  let ?E = "example_env example_registry (Some ''t'') example_tree ghr_fails_second"
  let ?a = "example_args None"
  let ?colls = "[(''common'', [example_dir @ [''v'', ''a.txt'']]),
          (''lib1'', [example_dir @ [''v'', ''libs.ref'', ''lib1'', ''x.lef'']]),
          (''lib2'', [example_dir @ [''v'', ''libs.ref'', ''lib2'', ''y.lef'']])]"
  let ?av = "upload_argv ?E ?a example_family ''t''"
  let ?tc = "[''tmp'', ''ciel'', ''u'', ''v1'', ''common.tar.zst'']"
  let ?t1 = "[''tmp'', ''ciel'', ''u'', ''v1'', ''lib1.tar.zst'']"
  let ?t2 = "[''tmp'', ''ciel'', ''u'', ''v1'', ''lib2.tar.zst'']"
  let ?s3 = "(staged ?E ?a ?colls)\<lparr>ghr_calls := [(?av ?tc, 0)]\<rparr>"
  let ?s4 = "(staged ?E ?a ?colls)\<lparr>ghr_calls := [(?av ?tc, 0), (?av ?t1, 1)]\<rparr>"
  have h1: "by_name ?E (pdk_family ?a) = Some example_family"
    by (simp add: example_env_def example_args_def example_registry_def)
  have h2: "github_token ?E = Some ''t''"
    by (simp add: example_env_def)
  have vd: "version_directory_of ?E ?a = example_dir"
    by (simp add: version_directory_of_def example_env_def example_args_def example_dir_def)
  have h3: "isdir (fs ?E) (version_directory_of ?E ?a)"
    unfolding vd by (simp add: isdir_def example_env_def example_tree_def)
  have h4: "partition_files (fs ?E) (version_directory_of ?E ?a)
              (library_list_of example_family (push_libraries ?a)) = Inr ?colls"
    unfolding vd using example_partition_all
    by (simp add: example_env_def example_args_def library_list_of_def example_family_def)
  have h5: "map (\<lambda>c. tarball_of (tarball_directory_of ?E ?a) (fst c)) ?colls = [?tc] @ ?t1 # [?t2]"
    by (simp add: tarball_of_def tarball_directory_of_def example_env_def example_args_def)
  have c0: "ghr_calls (staged ?E ?a ?colls) = []"
    by (rule staged_calls [OF h4])
  have g: "ghr ?E = ghr_fails_second"
    by (simp add: example_env_def)
  have h6: "upload_loop (ghr ?E) ?av (staged ?E ?a ?colls) [?tc] = (?s3, Inr ())"
    unfolding g by (simp add: check_call_def c0 ghr_fails_second_def)
  have h7: "check_call (ghr ?E) ?s3 (?av ?t1) = (?s4, Inl (CalledProcessError 1 (?av ?t1)))"
    unfolding g by (simp add: check_call_def ghr_fails_second_def)
  from failed_upload_aborts [OF h1 h2 h3 h4 h5 h6 h7]
  have "push ?E ?a = (?s4, Inl (CalledProcessError 1 (?av ?t1)))" by blast
  then show ?thesis by simp
qed

subsection \<open>The release tag and the names of the archives\<close>

text \<open>
  Claim C9. On a call that reaches the partition and completes it, the archive files
  \<open>push\<close> leaves in its output directory are named \<open>name.tar.zst\<close>, one per collection
  and in the order of the collections; and every call of \<open>ghr\<close> that \<open>push\<close> makes has the
  tag \<open>family-version\<close> as its last argument but one and the path of one of these archives
  as its last.
\<close>

theorem tag_and_archive_names:
  assumes "by_name E (pdk_family a) = Some fam" and "github_token E = Some token"
    and "isdir (fs E) (version_directory_of E a)"
    and "partition_files (fs E) (version_directory_of E a)
           (library_list_of fam (push_libraries a)) = Inr colls"
    and "push E a = (s, r)"
  shows "map fst (archives s) =
           map (\<lambda>c. tarball_directory_of E a @ [fst c @ ''.tar.zst'']) colls \<and>
         (\<forall>call \<in> set (ghr_calls s).
            last (butlast (fst call)) = pdk_family a @ ''-'' @ version a \<and>
            (\<exists>c \<in> set colls.
               last (fst call) = path_str (tarball_directory_of E a @ [fst c @ ''.tar.zst''])))"
proof -
  let ?td = "tarball_directory_of E a"
  let ?ts = "map (\<lambda>c. tarball_of ?td (fst c)) colls"
  have run: "upload_loop (ghr E) (upload_argv E a fam token) (staged E a colls) ?ts = (s, r)"
    using push_reaches_upload [OF assms(1-4)] assms(5) by simp
  from upload_loop_trace [OF run] obtain k where
    ar: "archives s = archives (staged E a colls)" and
    calls: "map fst (ghr_calls s) =
              map fst (ghr_calls (staged E a colls)) @ map (upload_argv E a fam token) (take k ?ts)"
    by blast
  have names: "map fst (archives s) = map (\<lambda>c. ?td @ [fst c @ ''.tar.zst'']) colls"
    unfolding ar staged_eq [OF assms(4)] by (simp add: comp_def tarball_of_def)
  have calls': "map fst (ghr_calls s) = map (upload_argv E a fam token) (take k ?ts)"
    using calls staged_calls [OF assms(4)] by simp
  have each: "\<And>call. call \<in> set (ghr_calls s) \<Longrightarrow>
      last (butlast (fst call)) = pdk_family a @ ''-'' @ version a \<and>
      (\<exists>c \<in> set colls. last (fst call) = path_str (?td @ [fst c @ ''.tar.zst'']))"
  proof -
    fix call assume "call \<in> set (ghr_calls s)"
    then have "fst call \<in> set (map fst (ghr_calls s))" by simp
    then have "fst call \<in> upload_argv E a fam token ` set (take k ?ts)"
      unfolding calls' by simp
    then obtain t where t: "t \<in> set (take k ?ts)" and c: "fst call = upload_argv E a fam token t"
      by blast
    from t have "t \<in> set ?ts" by (rule in_set_takeD)
    then obtain col where col: "col \<in> set colls" and tc: "t = ?td @ [fst col @ ''.tar.zst'']"
      by (auto simp: tarball_of_def)
    show "last (butlast (fst call)) = pdk_family a @ ''-'' @ version a \<and>
      (\<exists>c \<in> set colls. last (fst call) = path_str (?td @ [fst c @ ''.tar.zst'']))"
      using col by (auto simp: c tc upload_argv_def ghr_argv_tag)
  qed
  show ?thesis
    using names each by blast
qed

theorem tag_and_archive_names_witness:
  "map fst (archives (fst (push (example_env example_registry (Some ''t'') example_tree ghr_ok)
      (example_args (Some [''lib1''])))))
     = [[''tmp'', ''ciel'', ''u'', ''v1'', ''common.tar.zst''],
        [''tmp'', ''ciel'', ''u'', ''v1'', ''lib1.tar.zst'']] \<and>
   last (butlast (fst (hd (ghr_calls (fst (push
      (example_env example_registry (Some ''t'') example_tree ghr_ok)
      (example_args (Some [''lib1'']))))))))
     = ''sky130-v1''"
proof -
  let ?E = "example_env example_registry (Some ''t'') example_tree ghr_ok"
  let ?a = "example_args (Some [''lib1''])"
  let ?colls = "[(''common'', [example_dir @ [''v'', ''a.txt'']]),
          (''lib1'', [example_dir @ [''v'', ''libs.ref'', ''lib1'', ''x.lef'']])]"
  obtain s r where p: "push ?E ?a = (s, r)" by (cases "push ?E ?a")
  have h1: "by_name ?E (pdk_family ?a) = Some example_family"
    by (simp add: example_env_def example_args_def example_registry_def)
  have h2: "github_token ?E = Some ''t''"
    by (simp add: example_env_def)
  have vd: "version_directory_of ?E ?a = example_dir"
    by (simp add: version_directory_of_def example_env_def example_args_def example_dir_def)
  have h3: "isdir (fs ?E) (version_directory_of ?E ?a)"
    unfolding vd by (simp add: isdir_def example_env_def example_tree_def)
  have h4: "partition_files (fs ?E) (version_directory_of ?E ?a)
              (library_list_of example_family (push_libraries ?a)) = Inr ?colls"
    unfolding vd using example_partition
    by (simp add: example_env_def example_args_def library_list_of_def)
  note t = tag_and_archive_names [OF h1 h2 h3 h4 p]
  have ne: "hd (ghr_calls s) \<in> set (ghr_calls s)"
    using p unfolding example_push by auto
  have "last (butlast (fst (hd (ghr_calls s)))) = pdk_family ?a @ ''-'' @ version ?a"
    using t ne by blast
  moreover have "map fst (archives s) =
      map (\<lambda>c. tarball_directory_of ?E ?a @ [fst c @ ''.tar.zst'']) ?colls"
    using t by blast
  ultimately show ?thesis
    unfolding p
    by (simp add: tarball_directory_of_def example_env_def example_args_def)
qed

subsection \<open>The default allow-list\<close>

text \<open>
  Claim C10. When \<open>push_libraries\<close> is \<open>None\<close> or an empty list, \<open>push\<close> partitions with the
  full library list of the family: it behaves exactly as if that list had been passed,
  and, once the call has a token and an existing version directory, its outcome is the
  one of the partition under \<open>all_libraries\<close>, the error of that partition or the archives
  built from its collections.
\<close>

theorem default_allow_list:
  assumes "by_name E (pdk_family a) = Some fam"
    and "push_libraries a = None \<or> push_libraries a = Some []"
  shows "push E a = push E (a\<lparr>push_libraries := Some (all_libraries fam)\<rparr>) \<and>
         (github_token E \<noteq> None \<and> isdir (fs E) (version_directory_of E a) \<longrightarrow>
            (case partition_files (fs E) (version_directory_of E a) (all_libraries fam) of
               Inl err \<Rightarrow> push E a = (mkdirp (tarball_directory_of E a) initial, Inl err)
             | Inr colls \<Rightarrow> archives (fst (push E a)) = archives (staged E a colls)))"
proof (intro conjI impI)
  have ll: "library_list_of fam (push_libraries a) = all_libraries fam"
    using assms(2) by (auto simp: library_list_of_def)
  show "push E a = push E (a\<lparr>push_libraries := Some (all_libraries fam)\<rparr>)"
  proof (cases "github_token E")
    case None
    then show ?thesis using assms(1) by (simp add: push_def)
  next
    case (Some token)
    then show ?thesis using assms
      by (auto simp: push_def Let_def split: sum.splits prod.splits option.splits)
  qed
  assume r: "github_token E \<noteq> None \<and> isdir (fs E) (version_directory_of E a)"
  then obtain token where tok: "github_token E = Some token" by auto
  from r have d: "isdir (fs E) (version_directory_of E a)" by simp
  show "case partition_files (fs E) (version_directory_of E a) (all_libraries fam) of
          Inl err \<Rightarrow> push E a = (mkdirp (tarball_directory_of E a) initial, Inl err)
        | Inr colls \<Rightarrow> archives (fst (push E a)) = archives (staged E a colls)"
  proof (cases "partition_files (fs E) (version_directory_of E a) (all_libraries fam)")
    case (Inl err)
    then show ?thesis
      using push_partition_error [OF assms(1) tok d, of err] by (simp add: ll)
  next
    case (Inr colls)
    then have p: "partition_files (fs E) (version_directory_of E a)
                    (library_list_of fam (push_libraries a)) = Inr colls"
      by (simp add: ll)
    obtain s res where run:
      "upload_loop (ghr E) (upload_argv E a fam token) (staged E a colls)
         (map (\<lambda>c. tarball_of (tarball_directory_of E a) (fst c)) colls) = (s, res)"
      by (cases "upload_loop (ghr E) (upload_argv E a fam token) (staged E a colls)
         (map (\<lambda>c. tarball_of (tarball_directory_of E a) (fst c)) colls)")
    have "push E a = (s, res)"
      using push_reaches_upload [OF assms(1) tok d p] run by simp
    moreover have "archives s = archives (staged E a colls)"
      using upload_loop_trace [OF run] by blast
    ultimately show ?thesis by (simp add: Inr)
  qed
qed

theorem default_allow_list_witness:
  "push (example_env example_registry (Some ''t'') example_tree ghr_ok) (example_args None)
     = push (example_env example_registry (Some ''t'') example_tree ghr_ok)
         (example_args (Some [''lib1'', ''lib2''])) \<and>
   push (example_env example_registry (Some ''t'') example_tree ghr_ok) (example_args (Some []))
     = push (example_env example_registry (Some ''t'') example_tree ghr_ok)
         (example_args (Some [''lib1'', ''lib2'']))"
proof -
  let ?E = "example_env example_registry (Some ''t'') example_tree ghr_ok"
  have h1: "by_name ?E (pdk_family (example_args None)) = Some example_family"
    by (simp add: example_env_def example_args_def example_registry_def)
  have h1': "by_name ?E (pdk_family (example_args (Some []))) = Some example_family"
    by (simp add: example_env_def example_args_def example_registry_def)
  have h2: "push_libraries (example_args None) = None \<or> push_libraries (example_args None) = Some []"
    by (simp add: example_args_def)
  have h2': "push_libraries (example_args (Some [])) = None \<or>
             push_libraries (example_args (Some [])) = Some []"
    by (simp add: example_args_def)
  have u: "(example_args None)\<lparr>push_libraries := Some (all_libraries example_family)\<rparr>
             = example_args (Some [''lib1'', ''lib2''])"
          "(example_args (Some []))\<lparr>push_libraries := Some (all_libraries example_family)\<rparr>
             = example_args (Some [''lib1'', ''lib2''])"
    by (simp_all add: example_args_def example_family_def)
  show ?thesis
    using default_allow_list [OF h1 h2] default_allow_list [OF h1' h2'] unfolding u by blast
qed

end
